theory Spec2Isabelle
  imports Main "HOL-Library.Word"
begin

unbundle bit_operations_syntax

section \<open>External command rule (lib/BuildSystem/ExternalCommand.cpp)\<close>

subsection \<open>Data\<close>

text \<open>
  The ways a call can leave the defined behaviour of the C++ source: a failed
  \<^verbatim>\<open>assert\<close>, and a read outside a vector or buffer.
\<close>

datatype failure = AssertionFailed | OutOfBounds

text \<open>
  A build node as the command sees it: \<^verbatim>\<open>getName()\<close> and \<^verbatim>\<open>isVirtual()\<close>.
  The build file keeps one node object per name, so the pointer comparisons of the
  source are comparisons of these records.
\<close>

record BuildNode =
  getName :: string
  isVirtual :: bool

text \<open>
  Modelled from the spec: the header BuildValue.h is not among the sources. The spec
  gives the value as a tagged union of MissingInput, ExistingInput(meta), VirtualInput,
  FailedInput, SkippedCommand, FailedCommand and SuccessfulCommand(meta[], signature),
  projected per output by index. The file metadata (FileInfo.h, also absent) is the
  type parameter \<open>'f\<close>; its test \<^verbatim>\<open>isMissing()\<close> is a parameter of the
  functions that call it.
\<close>

datatype 'f BuildValue =
    MissingInput
  | ExistingInput 'f
  | VirtualInput
  | FailedInput
  | SkippedCommand
  | FailedCommand
  | SuccessfulCommand "'f list" "64 word"

fun isMissingInput :: "'f BuildValue \<Rightarrow> bool" where
  "isMissingInput MissingInput = True"
| "isMissingInput _ = False"

fun isExistingInput :: "'f BuildValue \<Rightarrow> bool" where
  "isExistingInput (ExistingInput _) = True"
| "isExistingInput _ = False"

fun isVirtualInput :: "'f BuildValue \<Rightarrow> bool" where
  "isVirtualInput VirtualInput = True"
| "isVirtualInput _ = False"

fun isFailedInput :: "'f BuildValue \<Rightarrow> bool" where
  "isFailedInput FailedInput = True"
| "isFailedInput _ = False"

fun isSkippedCommand :: "'f BuildValue \<Rightarrow> bool" where
  "isSkippedCommand SkippedCommand = True"
| "isSkippedCommand _ = False"

fun isFailedCommand :: "'f BuildValue \<Rightarrow> bool" where
  "isFailedCommand FailedCommand = True"
| "isFailedCommand _ = False"

fun isSuccessfulCommand :: "'f BuildValue \<Rightarrow> bool" where
  "isSuccessfulCommand (SuccessfulCommand _ _) = True"
| "isSuccessfulCommand _ = False"

fun getNumOutputs :: "'f BuildValue \<Rightarrow> nat" where
  "getNumOutputs (ExistingInput _) = 1"
| "getNumOutputs (SuccessfulCommand infos _) = length infos"
| "getNumOutputs _ = 0"

fun hasMultipleOutputs :: "'f BuildValue \<Rightarrow> bool" where
  "hasMultipleOutputs v = (1 < getNumOutputs v)"

text \<open>
  Modelled from the spec: the projection of a value by output index
  (\<^verbatim>\<open>getNthOutputInfo\<close> of the absent BuildValue.h); an index with no stored record
  is an error, as the \<^verbatim>\<open>assert(idx < value.getNumOutputs())\<close> of
  \<^verbatim>\<open>getResultForOutput\<close> has it.
\<close>

fun getNthOutputInfo :: "'f BuildValue \<Rightarrow> nat \<Rightarrow> failure + 'f" where
  "getNthOutputInfo (ExistingInput info) n =
     (if n = 0 then Inr info else Inl AssertionFailed)"
| "getNthOutputInfo (SuccessfulCommand infos _) n =
     (if n < length infos then Inr (infos ! n) else Inl AssertionFailed)"
| "getNthOutputInfo _ n = Inl AssertionFailed"

fun getCommandSignature :: "'f BuildValue \<Rightarrow> failure + 64 word" where
  "getCommandSignature (SuccessfulCommand _ signature) = Inr signature"
| "getCommandSignature _ = Inl AssertionFailed"

text \<open>The fields of \<^verbatim>\<open>ExternalCommand\<close> that the source file reads and writes.\<close>

record ExternalCommand =
  inputs :: "BuildNode list"
  outputs :: "BuildNode list"
  description :: string
  shouldSkip :: bool
  hasMissingInput :: bool

subsection \<open>Signature\<close>

text \<open>
  \<^verbatim>\<open>getSignature\<close>: two loops that fold \<^verbatim>\<open>result ^= hashString(name)\<close> into a
  64-bit accumulator starting at 0. \<^verbatim>\<open>basic::hashString\<close> (Hashing.h) is not among
  the sources and is a parameter.
\<close>

definition getSignature :: "(string \<Rightarrow> 64 word) \<Rightarrow> ExternalCommand \<Rightarrow> 64 word" where
  "getSignature hashString c =
     foldl (\<lambda>result output. result XOR hashString (getName output))
       (foldl (\<lambda>result input. result XOR hashString (getName input)) 0 (inputs c))
       (outputs c)"

text \<open>The spec's wording: the XOR of the hashes of a list of names.\<close>

fun xor_of_hashes :: "(string \<Rightarrow> 64 word) \<Rightarrow> string list \<Rightarrow> 64 word" where
  "xor_of_hashes hashString [] = 0"
| "xor_of_hashes hashString (n # ns) = hashString n XOR xor_of_hashes hashString ns"

subsection \<open>Configuration\<close>

definition configureDescription :: "string \<Rightarrow> ExternalCommand \<Rightarrow> ExternalCommand" where
  "configureDescription v c = c\<lparr>description := v\<rparr>"

definition configureInputs :: "BuildNode list \<Rightarrow> ExternalCommand \<Rightarrow> ExternalCommand" where
  "configureInputs v c = c\<lparr>inputs := inputs c @ v\<rparr>"

definition configureOutputs :: "BuildNode list \<Rightarrow> ExternalCommand \<Rightarrow> ExternalCommand" where
  "configureOutputs v c = c\<lparr>outputs := outputs c @ v\<rparr>"

subsection \<open>Results for outputs, and validity\<close>

text \<open>\<^verbatim>\<open>std::find(outputs.begin(), outputs.end(), node) - outputs.begin()\<close>.\<close>

fun findIndex :: "'a list \<Rightarrow> 'a \<Rightarrow> nat option" where
  "findIndex [] y = None"
| "findIndex (x # xs) y =
     (if x = y then Some 0 else map_option Suc (findIndex xs y))"

definition getResultForOutput ::
  "('f \<Rightarrow> bool) \<Rightarrow> ExternalCommand \<Rightarrow> BuildNode \<Rightarrow> 'f BuildValue \<Rightarrow> failure + 'f BuildValue" where
  "getResultForOutput isMissing c node v =
     (if isFailedCommand v \<or> isSkippedCommand v then Inr FailedInput
      else if \<not> isSuccessfulCommand v then Inl AssertionFailed
      else if isVirtual node then Inr VirtualInput
      else (case findIndex (outputs c) node of
              None \<Rightarrow> Inl AssertionFailed
            | Some idx \<Rightarrow>
                if \<not> idx < getNumOutputs v then Inl AssertionFailed
                else (case getNthOutputInfo v idx of
                        Inl e \<Rightarrow> Inl e
                      | Inr info \<Rightarrow>
                          if isMissing info then Inr MissingInput
                          else Inr (ExistingInput info))))"

text \<open>
  The loop of \<^verbatim>\<open>isResultValid\<close> over \<^verbatim>\<open>outputs[i]\<close>, from index \<open>i\<close>.
  \<^verbatim>\<open>node->getFileInfo()\<close> reads the file system: the parameter \<open>getFileInfo\<close>.
\<close>

fun checkOutputs ::
  "('f \<Rightarrow> bool) \<Rightarrow> (BuildNode \<Rightarrow> 'f) \<Rightarrow> 'f BuildValue \<Rightarrow> BuildNode list \<Rightarrow> nat \<Rightarrow> failure + bool" where
  "checkOutputs isMissing getFileInfo v [] i = Inr True"
| "checkOutputs isMissing getFileInfo v (node # rest) i =
     (if isVirtual node then checkOutputs isMissing getFileInfo v rest (Suc i)
      else let info = getFileInfo node in
        if isMissing info then Inr False
        else (case getNthOutputInfo v i of
                Inl e \<Rightarrow> Inl e
              | Inr stored \<Rightarrow>
                  if stored \<noteq> info then Inr False
                  else checkOutputs isMissing getFileInfo v rest (Suc i)))"

definition isResultValid ::
  "(string \<Rightarrow> 64 word) \<Rightarrow> ('f \<Rightarrow> bool) \<Rightarrow> (BuildNode \<Rightarrow> 'f) \<Rightarrow> ExternalCommand \<Rightarrow>
     'f BuildValue \<Rightarrow> failure + bool" where
  "isResultValid hashString isMissing getFileInfo c v =
     (if \<not> isSuccessfulCommand v then Inr False
      else (case getCommandSignature v of
              Inl e \<Rightarrow> Inl e
            | Inr signature \<Rightarrow>
                if signature \<noteq> getSignature hashString c then Inr False
                else checkOutputs isMissing getFileInfo v (outputs c) 0))"

subsection \<open>The delegate (BuildSystemFrontend.cpp, in the same source file)\<close>

text \<open>
  \<^verbatim>\<open>BuildSystemFrontendDelegateImpl\<close>: the two \<^verbatim>\<open>std::atomic<unsigned>\<close>
  counters, and the messages handed to the source manager for printing.
\<close>

record Delegate =
  numErrors :: "32 word"
  numFailedCommands :: "32 word"
  printed :: "string list"

definition getNumErrors :: "Delegate \<Rightarrow> 32 word" where
  "getNumErrors d = numErrors d"

definition getNumFailedCommands :: "Delegate \<Rightarrow> 32 word" where
  "getNumFailedCommands d = numFailedCommands d"

text \<open>
  \<^verbatim>\<open>error(filename, at, message)\<close>: counts the error and prints the message; the
  location it resolves only decides how the message is printed.
\<close>

definition error :: "string \<Rightarrow> Delegate \<Rightarrow> Delegate" where
  "error message d = d\<lparr>numErrors := numErrors d + 1, printed := printed d @ [message]\<rparr>"

definition isCancelled :: "Delegate \<Rightarrow> bool" where
  "isCancelled d = (getNumFailedCommands d > 0)"

definition hadCommandFailure :: "Delegate \<Rightarrow> Delegate" where
  "hadCommandFailure d = d\<lparr>numFailedCommands := numFailedCommands d + 1\<rparr>"

subsection \<open>Execution of an external command\<close>

text \<open>
  What the command does to the engine through \<^verbatim>\<open>BuildSystemCommandInterface\<close>,
  recorded in call order: the inputs requested with \<^verbatim>\<open>taskNeedsInput\<close> (node name
  and input id), the values passed to \<^verbatim>\<open>taskIsComplete\<close>, and the jobs given to
  \<^verbatim>\<open>addJob\<close> (each the command whose closure was queued).
\<close>

record 'f Interface =
  delegate :: Delegate
  neededInputs :: "(string \<times> nat) list"
  completions :: "'f BuildValue list"
  jobs :: "ExternalCommand list"

definition taskNeedsInput :: "string \<Rightarrow> nat \<Rightarrow> 'f Interface \<Rightarrow> 'f Interface" where
  "taskNeedsInput key inputID bsci = bsci\<lparr>neededInputs := neededInputs bsci @ [(key, inputID)]\<rparr>"

definition taskIsComplete :: "'f BuildValue \<Rightarrow> 'f Interface \<Rightarrow> 'f Interface" where
  "taskIsComplete v bsci = bsci\<lparr>completions := completions bsci @ [v]\<rparr>"

definition addJob :: "ExternalCommand \<Rightarrow> 'f Interface \<Rightarrow> 'f Interface" where
  "addJob c bsci = bsci\<lparr>jobs := jobs bsci @ [c]\<rparr>"

text \<open>The request loop of \<^verbatim>\<open>start\<close>, from input id \<open>i\<close>.\<close>

fun requestInputs :: "BuildNode list \<Rightarrow> nat \<Rightarrow> 'f Interface \<Rightarrow> 'f Interface" where
  "requestInputs [] i bsci = bsci"
| "requestInputs (n # ns) i bsci = requestInputs ns (Suc i) (taskNeedsInput (getName n) i bsci)"

definition start :: "ExternalCommand \<Rightarrow> 'f Interface \<Rightarrow> ExternalCommand \<times> 'f Interface" where
  "start c bsci =
     (c\<lparr>shouldSkip := False, hasMissingInput := False\<rparr>, requestInputs (inputs c) 0 bsci)"

definition provideValue ::
  "ExternalCommand \<Rightarrow> 'f Interface \<Rightarrow> nat \<Rightarrow> 'f BuildValue \<Rightarrow>
     failure + (ExternalCommand \<times> 'f Interface)" where
  "provideValue c bsci inputID v =
     (if hasMultipleOutputs v then Inl AssertionFailed
      else if \<not> (isExistingInput v \<or> isMissingInput v \<or> isFailedInput v \<or> isVirtualInput v)
        then Inl AssertionFailed
      else if \<not> isExistingInput v \<and> \<not> isVirtualInput v then
        (if isMissingInput v then
           (if inputID < length (inputs c) then
              Inr (c\<lparr>shouldSkip := True, hasMissingInput := True\<rparr>,
                   bsci\<lparr>delegate :=
                     error (''missing input '' @ [CHR 0x27] @ getName (inputs c ! inputID) @
                            [CHR 0x27] @ '' and no rule to build it'') (delegate bsci)\<rparr>)
            else Inl OutOfBounds)
         else Inr (c\<lparr>shouldSkip := True\<rparr>, bsci))
      else Inr (c, bsci))"

definition inputsAvailable :: "ExternalCommand \<Rightarrow> 'f Interface \<Rightarrow> failure + 'f Interface" where
  "inputsAvailable c bsci =
     (if isCancelled (delegate bsci) then Inr (taskIsComplete SkippedCommand bsci)
      else if shouldSkip c then
        (if hasMissingInput c then
           (case outputs c of
              [] \<Rightarrow> Inl OutOfBounds
            | output0 # _ \<Rightarrow>
                Inr (taskIsComplete SkippedCommand
                  (bsci\<lparr>delegate :=
                     hadCommandFailure
                       (error (''cannot build '' @ [CHR 0x27] @ getName output0 @ [CHR 0x27] @
                               '' due to missing input'') (delegate bsci))\<rparr>)))
         else Inr (taskIsComplete SkippedCommand bsci))
      else if hasMissingInput c then Inl AssertionFailed
      else Inr (addJob c bsci))"

text \<open>
  The closure given to \<^verbatim>\<open>addJob\<close>, run later on a lane. The outcome of
  \<^verbatim>\<open>executeExternalCommand\<close> (the child process) is the parameter \<open>succeeded\<close>.
  \<^verbatim>\<open>FileInfo{}\<close>, the null stamp of a virtual output, is the parameter \<open>nullInfo\<close>.
\<close>

definition runJob ::
  "(string \<Rightarrow> 64 word) \<Rightarrow> (BuildNode \<Rightarrow> 'f) \<Rightarrow> 'f \<Rightarrow> bool \<Rightarrow> ExternalCommand \<Rightarrow>
     'f Interface \<Rightarrow> 'f Interface" where
  "runJob hashString getFileInfo nullInfo succeeded c bsci =
     (if \<not> succeeded then
        (taskIsComplete FailedCommand bsci)\<lparr>delegate := hadCommandFailure (delegate bsci)\<rparr>
      else taskIsComplete
             (SuccessfulCommand
                (map (\<lambda>node. if isVirtual node then nullInfo else getFileInfo node) (outputs c))
                (getSignature hashString c))
             bsci)"

text \<open>
  The engine's side of one execution: \<^verbatim>\<open>start\<close>, then one \<^verbatim>\<open>provideValue\<close> for
  each resolved input (its id and its value, in the order they resolve), then
  \<^verbatim>\<open>inputsAvailable\<close>.
\<close>

fun provideValues ::
  "ExternalCommand \<Rightarrow> 'f Interface \<Rightarrow> (nat \<times> 'f BuildValue) list \<Rightarrow>
     failure + (ExternalCommand \<times> 'f Interface)" where
  "provideValues c bsci [] = Inr (c, bsci)"
| "provideValues c bsci ((inputID, v) # rest) =
     (case provideValue c bsci inputID v of
        Inl e \<Rightarrow> Inl e
      | Inr (c', bsci') \<Rightarrow> provideValues c' bsci' rest)"

definition execute ::
  "ExternalCommand \<Rightarrow> 'f Interface \<Rightarrow> (nat \<times> 'f BuildValue) list \<Rightarrow> failure + 'f Interface" where
  "execute c bsci resolved =
     (case start c bsci of (c1, bsci1) \<Rightarrow>
        (case provideValues c1 bsci1 resolved of
           Inl e \<Rightarrow> Inl e
         | Inr (c2, bsci2) \<Rightarrow> inputsAvailable c2 bsci2))"

section \<open>The frontend (BuildSystemFrontend.cpp)\<close>

text \<open>The fields of \<^verbatim>\<open>BuildSystemInvocation\<close> that the frontend reads.\<close>

record BuildSystemInvocation =
  chdirPath :: string
  dbPath :: string
  buildFilePath :: string
  traceFilePath :: string
  useSerialBuild :: bool
  showVerboseStatus :: bool

text \<open>
  \<^verbatim>\<open>createExecutionQueue\<close>. The queue (\<^verbatim>\<open>createLaneBasedExecutionQueue(n)\<close>, not among
  the sources) is represented by its lane count, an \<^verbatim>\<open>unsigned\<close>. The \<^verbatim>\<open>long\<close>
  returned by \<^verbatim>\<open>sysconf(_SC_NPROCESSORS_ONLN)\<close> is the parameter \<open>numCPUs\<close>; the
  assignment \<^verbatim>\<open>numLanes = numCPUs + 2\<close> converts it to 32 bits.
\<close>

definition createExecutionQueue ::
  "BuildSystemInvocation \<Rightarrow> int \<Rightarrow> Delegate \<Rightarrow> 32 word \<times> Delegate" where
  "createExecutionQueue invocation numCPUs d =
     (if useSerialBuild invocation then (1, d)
      else if numCPUs < 0 then (1, error ''unable to detect number of CPUs'' d)
      else (word_of_int (numCPUs + 2), d))"

text \<open>
  The collaborators of \<^verbatim>\<open>BuildSystemFrontend::build\<close> that are not among the sources:
  \<^verbatim>\<open>::chdir\<close> (the \<^verbatim>\<open>strerror\<close> text on failure), the \<^verbatim>\<open>BuildSystem\<close> object with
  state \<open>'s\<close> (its constructor, \<^verbatim>\<open>enableTracing\<close>, \<^verbatim>\<open>attachDB\<close>, and \<^verbatim>\<open>build\<close>,
  which runs commands and so changes the delegate), and the path functions of
  \<^verbatim>\<open>llvm::sys::path\<close>.
\<close>

record 's Host =
  chdir :: "string \<Rightarrow> string option"
  newBuildSystem :: "string \<Rightarrow> 's"
  enableTracing :: "string \<Rightarrow> 's \<Rightarrow> string + 's"
  attachDB :: "string \<Rightarrow> 's \<Rightarrow> string + 's"
  systemBuild :: "string \<Rightarrow> 's \<Rightarrow> Delegate \<Rightarrow> bool \<times> Delegate"
  has_relative_path :: "string \<Rightarrow> bool"
  parent_path :: "string \<Rightarrow> string"
  append_path :: "string \<Rightarrow> string \<Rightarrow> string"

text \<open>
  The first half of \<^verbatim>\<open>build\<close>, up to the attached database: either an early
  \<^verbatim>\<open>return false\<close> with the delegate after the error it reported, or the configured
  build system.
\<close>

definition prepare :: "'s Host \<Rightarrow> BuildSystemInvocation \<Rightarrow> Delegate \<Rightarrow> Delegate + 's" where
  "prepare host invocation d =
     (case (if chdirPath invocation \<noteq> [] then chdir host (chdirPath invocation) else None) of
        Some msg \<Rightarrow> Inl (error (''unable to honor --chdir: '' @ msg) d)
      | None \<Rightarrow>
         (case (if traceFilePath invocation \<noteq> []
                then enableTracing host (traceFilePath invocation)
                       (newBuildSystem host (buildFilePath invocation))
                else Inr (newBuildSystem host (buildFilePath invocation))) of
            Inl msg \<Rightarrow> Inl (error (''unable to enable tracing: '' @ msg) d)
          | Inr system \<Rightarrow>
             (if dbPath invocation \<noteq> [] then
                (case attachDB host
                        (if has_relative_path host (dbPath invocation)
                         then append_path host (parent_path host (buildFilePath invocation))
                                (dbPath invocation)
                         else dbPath invocation)
                        system of
                   Inl msg \<Rightarrow> Inl (error (''unable to attach DB: '' @ msg) d)
                 | Inr system' \<Rightarrow> Inr system')
              else Inr system)))"

text \<open>\<^verbatim>\<open>Twine(n)\<close> of an unsigned: its decimal digits.\<close>

fun digits :: "nat \<Rightarrow> string" where
  "digits n = (if n < 10 then [char_of (48 + n)] else digits (n div 10) @ [char_of (48 + n mod 10)])"

definition build ::
  "'s Host \<Rightarrow> BuildSystemInvocation \<Rightarrow> string \<Rightarrow> Delegate \<Rightarrow> bool \<times> Delegate" where
  "build host invocation targetToBuild d =
     (case prepare host invocation d of
        Inl d' \<Rightarrow> (False, d')
      | Inr system \<Rightarrow>
         (case systemBuild host targetToBuild system d of (ok, d1) \<Rightarrow>
            if \<not> ok then (False, d1)
            else if getNumFailedCommands d1 \<noteq> 0 then
              (False, error (''build had '' @ digits (unat (getNumFailedCommands d1)) @
                             '' command failures'') d1)
            else (getNumErrors d1 = 0, d1)))"

text \<open>
  The lane count in the spec's words: 1 in serial mode, otherwise the smaller
  of the processor count plus two and a configured maximum.
\<close>

definition spec_lane_count :: "bool \<Rightarrow> int \<Rightarrow> int \<Rightarrow> int" where
  "spec_lane_count serial physical_cores configured_max =
     (if serial then 1 else min (physical_cores + 2) configured_max)"


section \<open>Makefile-deps parser (lib/Core/MakefileDepsParser.cpp)\<close>

text \<open>
  The parser walks a pointer \<^verbatim>\<open>cur\<close> through the buffer \<^verbatim>\<open>data .. data + length\<close>.
  The model keeps the unread bytes, from \<^verbatim>\<open>cur\<close> to \<^verbatim>\<open>end\<close>: the test
  \<^verbatim>\<open>cur != end\<close> is that the list is not empty, \<^verbatim>\<open>*cur\<close> is its head,
  \<^verbatim>\<open>cur[1]\<close> its second byte, and the offset \<^verbatim>\<open>cur - data\<close> is the buffer's length
  less the number of unread bytes. Two pointers into the buffer are equal when as many
  bytes are unread at both.
\<close>

definition isWordChar :: "char \<Rightarrow> bool" where
  "isWordChar c =
     (if c = CHR 0x00 then False
      else if c = CHR 0x09 then False
      else if c = CHR 0x0A then False
      else if c = CHR '' '' then False
      else if c = CHR ''$'' then False
      else if c = CHR '':'' then False
      else if c = CHR '';'' then False
      else if c = CHR ''='' then False
      else if c = CHR ''|'' then False
      else if c = CHR ''%'' then False
      else True)"

text \<open>
  At a \<^verbatim>\<open>#\<close> the inner loop advances \<^verbatim>\<open>cur\<close> for as long as the byte after it is
  a newline (\<^verbatim>\<open>cur[1] == '\n'\<close>), and the \<^verbatim>\<open>continue\<close> then steps over the byte
  \<^verbatim>\<open>cur\<close> stands on: what is left is the rest after the \<^verbatim>\<open>#\<close> without its leading
  newlines.
\<close>

function skipWhitespaceAndComments :: "string \<Rightarrow> string" where
  "skipWhitespaceAndComments [] = []"
| "skipWhitespaceAndComments (c # rest) =
     (if c = CHR ''#'' then
        skipWhitespaceAndComments (dropWhile (\<lambda>d. d = CHR 0x0A) rest)
      else if c = CHR '' '' \<or> c = CHR 0x09 \<or> c = CHR 0x0A then
        skipWhitespaceAndComments rest
      else c # rest)"
  by pat_completeness auto
termination
  by (relation "measure length") (auto simp: le_imp_less_Suc length_dropWhile_le)

fun skipNonNewlineWhitespace :: "string \<Rightarrow> string" where
  "skipNonNewlineWhitespace [] = []"
| "skipNonNewlineWhitespace (c # rest) =
     (if c = CHR '' '' \<or> c = CHR 0x09 then skipNonNewlineWhitespace rest
      else (case rest of
              d # rest' \<Rightarrow>
                if c = CHR 0x5C \<and> d = CHR 0x0A then skipNonNewlineWhitespace rest'
                else c # rest
            | [] \<Rightarrow> c # rest))"

fun skipToEndOfLine :: "string \<Rightarrow> string" where
  "skipToEndOfLine [] = []"
| "skipToEndOfLine (c # rest) = (if c = CHR 0x0A then rest else skipToEndOfLine rest)"

text \<open>
  \<^verbatim>\<open>lexWord\<close>. On a backslash that is not a line continuation the body does
  \<^verbatim>\<open>++cur; continue;\<close> and the loop header increments again. When the backslash is
  the last byte of the buffer, \<^verbatim>\<open>cur\<close> is then \<^verbatim>\<open>end + 1\<close>, the test
  \<^verbatim>\<open>cur != end\<close> holds, and the loop reads outside the buffer.
\<close>

fun lexWord :: "string \<Rightarrow> failure + string" where
  "lexWord [] = Inr []"
| "lexWord (c # rest) =
     (if c = CHR 0x5C then
        (case rest of
           [] \<Rightarrow> Inl OutOfBounds
         | d # rest' \<Rightarrow> if d = CHR 0x0A then Inr (c # rest) else lexWord rest')
      else if \<not> isWordChar c then Inr (c # rest)
      else lexWord rest)"

text \<open>The calls on \<^verbatim>\<open>ParseActions\<close>, in the order the parser makes them.\<close>

datatype event =
    ActOnRuleStart string
  | ActOnRuleDependency string
  | ActOnRuleEnd
  | ParseError string nat

lemma length_skipWhitespaceAndComments:
  "length (skipWhitespaceAndComments cur) \<le> length cur"
proof (induction cur rule: skipWhitespaceAndComments.induct)
  case 1
  then show ?case by simp
next
  case (2 c rest)
  show ?case
  proof (cases "c = CHR ''#''")
    case True
    have "length (dropWhile (\<lambda>d. d = CHR 0x0A) rest) \<le> length rest"
      by (rule length_dropWhile_le)
    with 2(1) [OF True] True show ?thesis by simp
  next
    case False
    show ?thesis
    proof (cases "c = CHR '' '' \<or> c = CHR 0x09 \<or> c = CHR 0x0A")
      case True
      with 2(2) [OF False True] False show ?thesis by simp
    next
      case nows: False
      with False show ?thesis by simp
    qed
  qed
qed

lemma length_skipNonNewlineWhitespace:
  "length (skipNonNewlineWhitespace cur) \<le> length cur"
proof (induction cur rule: skipNonNewlineWhitespace.induct)
  case 1
  then show ?case by simp
next
  case (2 c rest)
  show ?case
  proof (cases "c = CHR '' '' \<or> c = CHR 0x09")
    case True
    with 2(1) show ?thesis by simp
  next
    case False
    show ?thesis
    proof (cases rest)
      case Nil
      with False show ?thesis by simp
    next
      case (Cons d rest')
      show ?thesis
      proof (cases "c = CHR 0x5C \<and> d = CHR 0x0A")
        case True
        with 2(2) [OF False Cons] False Cons show ?thesis by simp
      next
        case no: False
        then have "skipNonNewlineWhitespace (c # rest) = c # rest"
          using False Cons by auto
        then show ?thesis by simp
      qed
    qed
  qed
qed

lemma length_skipToEndOfLine:
  "length (skipToEndOfLine cur) \<le> length cur"
  by (induction cur) simp_all

lemma length_skipToEndOfLine_less:
  "cur \<noteq> [] \<Longrightarrow> length (skipToEndOfLine cur) < length cur"
  using length_skipToEndOfLine by (cases cur) (simp_all add: le_imp_less_Suc)

lemma length_lexWord:
  "lexWord cur = Inr cur' \<Longrightarrow> length cur' \<le> length cur"
  by (induction cur arbitrary: cur' rule: lexWord.induct)
     (fastforce split: if_splits list.splits)+

text \<open>
  The inner loop of \<^verbatim>\<open>parse\<close>, which consumes dependency words up to the end of the
  line. \<open>n\<close> is the length of the buffer. The result is the calls made, and either the
  position at which the loop ends or the failure that stops it.
\<close>

function parseDependencies :: "nat \<Rightarrow> string \<Rightarrow> event list \<times> (failure + string)" where
  "parseDependencies n cur =
     (if cur = [] then ([], Inr cur)
      else let cur1 = skipNonNewlineWhitespace cur in
        if cur1 = [] \<or> hd cur1 = CHR 0x0A then ([], Inr cur1)
        else (case lexWord cur1 of
                Inl e \<Rightarrow> ([], Inl e)
              | Inr cur2 \<Rightarrow>
                  if length cur2 = length cur1 then
                    (case parseDependencies n (skipToEndOfLine cur2) of
                       (evs, r) \<Rightarrow>
                         (ParseError ''unexpected character in prerequisites''
                            (n - length cur2) # evs, r))
                  else
                    (case parseDependencies n cur2 of
                       (evs, r) \<Rightarrow>
                         (ActOnRuleDependency (take (length cur1 - length cur2) cur1) # evs,
                          r))))"
  by pat_completeness auto
termination
proof (relation "measure (\<lambda>(n, cur). length cur)", goal_cases)
  case 1
  then show ?case by simp
next
  case (2 n cur cur1 cur2)
  then have "cur2 \<noteq> []" by auto
  then have "length (skipToEndOfLine cur2) < length cur2"
    by (rule length_skipToEndOfLine_less)
  moreover have "length cur1 \<le> length cur"
    using 2 by (simp add: length_skipNonNewlineWhitespace)
  ultimately show ?case using 2 by simp
next
  case (3 n cur cur1 cur2)
  then have "length cur2 \<le> length cur1" by (auto dest: length_lexWord)
  moreover have "length cur1 \<le> length cur"
    using 3 by (simp add: length_skipNonNewlineWhitespace)
  ultimately show ?case using 3 by simp
qed

declare parseDependencies.simps [simp del]

lemma length_parseDependencies:
  "parseDependencies n cur = (evs, Inr cur') \<Longrightarrow> length cur' \<le> length cur"
proof (induction n cur arbitrary: evs cur' rule: parseDependencies.induct)
  case (1 n cur)
  note run = "1.prems" [unfolded parseDependencies.simps [of n cur]]
  show ?case
  proof (cases "cur = []")
    case True
    with run show ?thesis by simp
  next
    case False
    define cur1 where "cur1 = skipNonNewlineWhitespace cur"
    have le1: "length cur1 \<le> length cur"
      by (simp add: cur1_def length_skipNonNewlineWhitespace)
    show ?thesis
    proof (cases "cur1 = [] \<or> hd cur1 = CHR 0x0A")
      case True
      with False run le1 show ?thesis
        by (simp add: cur1_def [symmetric] Let_def)
    next
      case stop: False
      show ?thesis
      proof (cases "lexWord cur1")
        case (Inl e)
        with False stop run show ?thesis
          by (simp add: cur1_def [symmetric] Let_def)
      next
        case (Inr cur2)
        then have le2: "length cur2 \<le> length cur1" by (rule length_lexWord)
        show ?thesis
        proof (cases "length cur2 = length cur1")
          case True
          obtain es r where rec: "parseDependencies n (skipToEndOfLine cur2) = (es, r)"
            by (cases "parseDependencies n (skipToEndOfLine cur2)")
          with False stop Inr True run have r: "r = Inr cur'"
            by (simp add: cur1_def [symmetric] Let_def)
          have "length cur' \<le> length (skipToEndOfLine cur2)"
            using "1.IH"(1) [OF False cur1_def stop Inr True] rec r by simp
          with le1 le2 length_skipToEndOfLine [of cur2] show ?thesis by simp
        next
          case neq: False
          obtain es r where rec: "parseDependencies n cur2 = (es, r)"
            by (cases "parseDependencies n cur2")
          with False stop Inr neq run have r: "r = Inr cur'"
            by (simp add: cur1_def [symmetric] Let_def)
          have "length cur' \<le> length cur2"
            using "1.IH"(2) [OF False cur1_def stop Inr neq] rec r by simp
          with le1 le2 show ?thesis by simp
        qed
      qed
    qed
  qed
qed

text \<open>
  The outer loop of \<^verbatim>\<open>parse\<close>: the calls made from this position on, and the
  failure that stops the parser, if one does.
\<close>

function parseRules :: "nat \<Rightarrow> string \<Rightarrow> event list \<times> failure option" where
  "parseRules n cur =
     (if cur = [] then ([], None)
      else let cur1 = skipWhitespaceAndComments cur in
        if cur1 = [] then ([], None)
        else (case lexWord cur1 of
                Inl e \<Rightarrow> ([], Some e)
              | Inr cur2 \<Rightarrow>
                  if length cur2 = length cur1 then
                    (case parseRules n (skipToEndOfLine cur2) of
                       (evs, r) \<Rightarrow>
                         (ParseError ''unexpected character in file'' (n - length cur2) # evs,
                          r))
                  else let cur3 = skipNonNewlineWhitespace cur2 in
                    if cur3 = [] \<or> hd cur3 \<noteq> CHR '':'' then
                      (case parseRules n (skipToEndOfLine cur3) of
                         (evs, r) \<Rightarrow>
                           (ActOnRuleStart (take (length cur1 - length cur2) cur1) #
                            ParseError ''missing ':' following rule'' (n - length cur3) #
                            ActOnRuleEnd # evs, r))
                    else
                      (case parseDependencies n (tl cur3) of
                         (deps, Inl e) \<Rightarrow>
                           (ActOnRuleStart (take (length cur1 - length cur2) cur1) # deps,
                            Some e)
                       | (deps, Inr cur4) \<Rightarrow>
                           (case parseRules n cur4 of
                              (evs, r) \<Rightarrow>
                                (ActOnRuleStart (take (length cur1 - length cur2) cur1) #
                                 deps @ ActOnRuleEnd # evs, r)))))"
  by pat_completeness auto
termination
proof (relation "measure (\<lambda>(n, cur). length cur)", goal_cases)
  case 1
  then show ?case by simp
next
  case (2 n cur cur1 cur2)
  then have "cur2 \<noteq> []" by auto
  then have "length (skipToEndOfLine cur2) < length cur2"
    by (rule length_skipToEndOfLine_less)
  moreover have "length cur1 \<le> length cur"
    using 2 by (simp add: length_skipWhitespaceAndComments)
  ultimately show ?case using 2 by simp
next
  case (3 n cur cur1 cur2 cur3)
  then have "length cur2 < length cur1" by (auto dest: length_lexWord)
  moreover have "length cur1 \<le> length cur"
    using 3 by (simp add: length_skipWhitespaceAndComments)
  moreover have "length (skipToEndOfLine cur3) \<le> length cur2"
    using 3 length_skipToEndOfLine [of cur3] length_skipNonNewlineWhitespace [of cur2]
    by simp
  ultimately show ?case by simp
next
  case (4 n cur cur1 cur2 cur3 deps y cur4)
  then have "length cur2 < length cur1" by (auto dest: length_lexWord)
  moreover have "length cur1 \<le> length cur"
    using 4 by (simp add: length_skipWhitespaceAndComments)
  moreover have "length cur3 \<le> length cur2"
    using 4 length_skipNonNewlineWhitespace [of cur2] by simp
  moreover have "parseDependencies n (tl cur3) = (deps, Inr cur4)"
    using 4 by simp
  then have "length cur4 \<le> length (tl cur3)"
    by (rule length_parseDependencies)
  ultimately show ?case by simp
qed

text \<open>\<^verbatim>\<open>MakefileDepsParser::parse()\<close> on the buffer \<open>data\<close>.\<close>

declare parseRules.simps [simp del]

definition parse :: "string \<Rightarrow> event list \<times> failure option" where
  "parse data = parseRules (length data) data"

text \<open>
  A well-formed stream of calls, read from outside a rule (\<open>False\<close>) or inside one
  (\<open>True\<close>): a rule starts only outside a rule, a dependency and a rule end occur
  only inside one, and the stream ends outside a rule.
\<close>

fun wellFormed :: "bool \<Rightarrow> event list \<Rightarrow> bool" where
  "wellFormed inRule [] = (\<not> inRule)"
| "wellFormed inRule (ActOnRuleStart w # es) = (\<not> inRule \<and> wellFormed True es)"
| "wellFormed inRule (ActOnRuleDependency w # es) = (inRule \<and> wellFormed True es)"
| "wellFormed inRule (ActOnRuleEnd # es) = (inRule \<and> wellFormed False es)"
| "wellFormed inRule (ParseError m off # es) = wellFormed inRule es"

text \<open>A buffer, or what is left of one, whose last byte is a backslash.\<close>

definition endsInBackslash :: "string \<Rightarrow> bool" where
  "endsInBackslash cur \<longleftrightarrow> cur \<noteq> [] \<and> last cur = CHR 0x5C"


section \<open>Build-description loader (lib/BuildSystem/BuildFile.cpp)\<close>

text \<open>
  The document tree that \<^verbatim>\<open>llvm::yaml\<close> hands to the loader, by node kind. A mapping
  is the sequence of its entries, each with \<^verbatim>\<open>getKey()\<close> and \<^verbatim>\<open>getValue()\<close>; an
  entry seen as a node of its own (\<^verbatim>\<open>&*it\<close>) is a \<open>KeyValue\<close>.
\<close>

datatype yaml =
    Null
  | Scalar string
  | KeyValue yaml yaml
  | Mapping "(yaml \<times> yaml) list"
  | Sequence "yaml list"
  | Alias

text \<open>
  The state of \<^verbatim>\<open>BuildFileImpl\<close>: the error counter, the errors passed to the
  delegate (the node they are reported at, and the message), and everything else
  (the tools, targets, nodes and commands loaded so far, and the delegate's own
  state) as \<open>'d\<close>.
\<close>

record 'd BuildFileImpl =
  loadErrors :: nat
  reported :: "(yaml \<times> string) list"
  loaded :: 'd

definition error_at :: "yaml \<Rightarrow> string \<Rightarrow> 'd BuildFileImpl \<Rightarrow> 'd BuildFileImpl" where
  "error_at node message st =
     st\<lparr>reported := reported st @ [(node, message)], loadErrors := loadErrors st + 1\<rparr>"

definition nodeIsScalarString :: "yaml \<Rightarrow> string \<Rightarrow> bool" where
  "nodeIsScalarString node name = (case node of Scalar s \<Rightarrow> s = name | _ \<Rightarrow> False)"

text \<open>
  The five section parsers (\<^verbatim>\<open>parseClientMapping\<close>, \<^verbatim>\<open>parseToolsMapping\<close>,
  \<^verbatim>\<open>parseTargetsMapping\<close>, \<^verbatim>\<open>parseNodesMapping\<close>, \<^verbatim>\<open>parseCommandsMapping\<close>) work
  through the delegate and the tools, nodes and commands it creates, none of which is
  among the sources. \<^verbatim>\<open>parseRootNode\<close> only calls them and tests the \<^verbatim>\<open>bool\<close>
  they return, so they are parameters: each takes the entries of its section and the
  loader's state, and returns its verdict and the new state.
\<close>

type_synonym 'd section_parser =
  "(yaml \<times> yaml) list \<Rightarrow> 'd BuildFileImpl \<Rightarrow> bool \<times> 'd BuildFileImpl"

record 'd SectionParsers =
  parseClientMapping :: "'d section_parser"
  parseToolsMapping :: "'d section_parser"
  parseTargetsMapping :: "'d section_parser"
  parseNodesMapping :: "'d section_parser"
  parseCommandsMapping :: "'d section_parser"

text \<open>
  One of the four optional blocks of \<^verbatim>\<open>parseRootNode\<close>, which differ in the section
  name and the parser only:
  \<^verbatim>\<open>if (it != mapping->end() && nodeIsScalarString(it->getKey(), name)) { ... ++it; }\<close>.
  The result is the iterator after the block, or \<open>None\<close> where the block returns
  \<^verbatim>\<open>false\<close>.
\<close>

definition parseSection ::
  "string \<Rightarrow> 'd section_parser \<Rightarrow> (yaml \<times> yaml) list \<Rightarrow> 'd BuildFileImpl \<Rightarrow>
     (yaml \<times> yaml) list option \<times> 'd BuildFileImpl" where
  "parseSection name parser it st =
     (case it of
        [] \<Rightarrow> (Some it, st)
      | (key, val) # rest \<Rightarrow>
          if nodeIsScalarString key name then
            (case val of
               Mapping entries \<Rightarrow>
                 (case parser entries st of
                    (ok, st') \<Rightarrow> if ok then (Some rest, st') else (None, st'))
             | _ \<Rightarrow>
                 (None, error_at val
                    (''unexpected '' @ [CHR 0x27] @ name @ [CHR 0x27] @ '' value (expected map)'')
                    st))
          else (Some it, st))"

text \<open>
  \<^verbatim>\<open>parseRootNode\<close>. The source dereferences \<^verbatim>\<open>mapping->begin()\<close> without a test:
  on a mapping with no entry that is a read past the collection.
\<close>

definition parseRootNode ::
  "'d SectionParsers \<Rightarrow> yaml \<Rightarrow> 'd BuildFileImpl \<Rightarrow> failure + (bool \<times> 'd BuildFileImpl)" where
  "parseRootNode P node st =
     (case node of
        Mapping mapping \<Rightarrow>
          (case mapping of
             [] \<Rightarrow> Inl OutOfBounds
           | (key, val) # it1 \<Rightarrow>
               if \<not> nodeIsScalarString key ''client'' then
                 Inr (False,
                      error_at key (''expected initial mapping key '' @ [CHR 0x27] @ ''client'' @
                                    [CHR 0x27]) st)
               else
                 (case val of
                    Mapping entries \<Rightarrow>
                      (case parseClientMapping P entries st of
                         (ok, st1) \<Rightarrow>
                           if \<not> ok then Inr (False, st1)
                           else
                             (case parseSection ''tools'' (parseToolsMapping P) it1 st1 of
                                (None, st2) \<Rightarrow> Inr (False, st2)
                              | (Some it2, st2) \<Rightarrow>
                             (case parseSection ''targets'' (parseTargetsMapping P) it2 st2 of
                                (None, st3) \<Rightarrow> Inr (False, st3)
                              | (Some it3, st3) \<Rightarrow>
                             (case parseSection ''nodes'' (parseNodesMapping P) it3 st3 of
                                (None, st4) \<Rightarrow> Inr (False, st4)
                              | (Some it4, st4) \<Rightarrow>
                             (case parseSection ''commands'' (parseCommandsMapping P) it4 st4 of
                                (None, st5) \<Rightarrow> Inr (False, st5)
                              | (Some it5, st5) \<Rightarrow>
                                  (case it5 of
                                     [] \<Rightarrow> Inr (True, st5)
                                   | (k, v) # _ \<Rightarrow>
                                       Inr (False,
                                            error_at (KeyValue k v)
                                              ''unexpected trailing top-level section''
                                              st5)))))))
                  | _ \<Rightarrow>
                      Inr (False,
                           error_at val
                             (''unexpected '' @ [CHR 0x27] @ ''client'' @ [CHR 0x27] @
                              '' value (expected map)'') st)))
      | _ \<Rightarrow> Inr (False, error_at node ''unexpected top-level node'' st))"

text \<open>
  The spec's wording for the order of sections: the keys that follow \<open>client\<close> are
  taken from the fixed sequence of names, in its order, each at most once.
\<close>

fun inFixedOrder :: "string list \<Rightarrow> yaml list \<Rightarrow> bool" where
  "inFixedOrder names [] = True"
| "inFixedOrder [] (k # ks) = False"
| "inFixedOrder (n # names) (k # ks) =
     (if k = Scalar n then inFixedOrder names ks else inFixedOrder names (k # ks))"

text \<open>What is left of the entries once the fixed sequence of sections is consumed.\<close>

fun remaining :: "string list \<Rightarrow> (yaml \<times> yaml) list \<Rightarrow> (yaml \<times> yaml) list" where
  "remaining [] it = it"
| "remaining (n # names) [] = []"
| "remaining (n # names) ((k, v) # rest) =
     (if k = Scalar n then remaining names rest else remaining names ((k, v) # rest))"

definition optionalSections :: "string list" where
  "optionalSections = [''tools'', ''targets'', ''nodes'', ''commands'']"

text \<open>
  What \<^verbatim>\<open>parseRootNode\<close> relies on when it returns \<^verbatim>\<open>false\<close> after a section parser
  without a message of its own: the errors already passed to the delegate stay, and a
  section parser that returns \<^verbatim>\<open>false\<close> has passed one more. In the source every
  \<^verbatim>\<open>return false\<close> of the five parsers follows a call of \<^verbatim>\<open>error\<close>, but for those
  after a \<^verbatim>\<open>configureAttribute\<close> that returned \<^verbatim>\<open>false\<close>, which reports through the
  context it is given (as \<^verbatim>\<open>ExternalCommand::configureAttribute\<close> does with
  \<^verbatim>\<open>ctx.error\<close>).
\<close>

definition reportsRejection :: "'d section_parser \<Rightarrow> bool" where
  "reportsRejection parser \<longleftrightarrow>
     (\<forall>entries s.
        length (reported s) \<le> length (reported (snd (parser entries s))) \<and>
        (\<not> fst (parser entries s) \<longrightarrow>
           length (reported s) < length (reported (snd (parser entries s)))))"

text \<open>
  A section parser accepts every section of the given name among the entries \<open>it\<close>:
  each is a mapping, and the parser returns \<^verbatim>\<open>true\<close> on it.
\<close>

definition acceptsSection :: "string \<Rightarrow> 'd section_parser \<Rightarrow> (yaml \<times> yaml) list \<Rightarrow> bool" where
  "acceptsSection name parser it \<longleftrightarrow>
     (\<forall>v. (Scalar name, v) \<in> set it \<longrightarrow>
        (\<exists>entries. v = Mapping entries \<and> (\<forall>s. fst (parser entries s))))"


section \<open>Build engine core\<close>

text \<open>
  Modelled from the spec: the engine itself (lib/Core/BuildEngine.cpp and the header
  BuildEngine.h) is not among the sources; only its unit test BuildEngineTest.cpp is.
  The definitions of this section follow the spec's data model (section 3) and build
  algorithm (section 4.3): keys, opaque values compared by equality, result records
  with built and checked iteration and the declared and discovered dependency lists,
  rules with a task factory and a validator, tasks with \<^verbatim>\<open>start\<close>,
  \<^verbatim>\<open>provideValue\<close>, \<^verbatim>\<open>providePriorValue\<close> and \<^verbatim>\<open>inputsAvailable\<close>, scanning, and
  execution. Three points are fixed by the spec's scenarios and the unit test where the
  text of section 4.3 is silent or differs:
  \<^item> a dependency met while scanning is brought up to date (its task runs if it must)
    before its built iteration is compared;
  \<^item> after a task completes and its result is written, each discovered dependency is
    brought up to date, without a \<^verbatim>\<open>provideValue\<close> (scenario 4 and the test
    \<^verbatim>\<open>discoveredDependencies\<close> have the discovered key built in the first build, after
    the declared input);
  \<^item> a recomputed value equal to the stored one keeps the stored built iteration
    (scenario 6 and the test \<^verbatim>\<open>unchangedOutputs\<close>: the dependants do not run again).
  Status callbacks and tracing, which decide neither what runs nor what is recorded,
  are left out. The explicit work stack of the spec is the recursion of \<open>resolve\<close>;
  the recursion is bounded by a fuel argument, and running out of it is an error of
  its own.
\<close>

type_synonym KeyType = string

text \<open>
  Modelled from the spec: the result record of section 3 (the engine's \<^verbatim>\<open>Result\<close> is
  not among the sources): the value, the built and the checked iteration, and the
  declared and the discovered dependencies in the order they were reported.
\<close>

record 'v Result =
  resultValue :: 'v
  builtAt :: nat
  checkedAt :: nat
  declaredDeps :: "KeyType list"
  discoveredDeps :: "KeyType list"

text \<open>
  Modelled from the spec: the task-facing callbacks of section 4.3 (the class
  \<^verbatim>\<open>BuildEngine\<close> is not among the sources), as what a task callback asks of the
  engine, in call order: \<^verbatim>\<open>taskNeedsInput(key, id)\<close>,
  \<^verbatim>\<open>taskDiscoveredDependency(key)\<close>, \<^verbatim>\<open>taskIsComplete(value)\<close>. \<open>BuiltKey\<close> is
  the side effect of the unit test's callbacks, a \<^verbatim>\<open>builtKeys.push_back\<close>.
\<close>

datatype 'v action =
    TaskNeedsInput KeyType nat
  | TaskDiscoveredDependency KeyType
  | TaskIsComplete 'v
  | BuiltKey string

text \<open>
  Modelled from the spec: the rule and task of section 3 (\<^verbatim>\<open>Rule\<close> and \<^verbatim>\<open>Task\<close>
  are not among the sources). A rule has its factory (the keys it pushes in the test,
  and the state \<open>'ts\<close> of the fresh task), the task's callbacks as functions of the
  task state, and the validator.
\<close>

record ('v, 'ts) Rule =
  createTask :: "string list \<times> 'ts"
  taskStart :: "'ts \<Rightarrow> 'v action list"
  taskProvidePriorValue :: "'v \<Rightarrow> 'ts \<Rightarrow> 'ts"
  taskProvideValue :: "nat \<Rightarrow> 'v \<Rightarrow> 'ts \<Rightarrow> 'ts"
  taskInputsAvailable :: "'ts \<Rightarrow> 'v action list"
  ruleIsValid :: "'v \<Rightarrow> bool"

text \<open>
  Modelled from the spec: the state of the engine (not among the sources), by the data
  model of section 3: the stored results, the iteration counter, the per-build rule states
  (complete, or on the scan stack), and three records of what happened: the keys the
  test's callbacks pushed, every \<^verbatim>\<open>provideValue\<close> call as (task's key, key of
  the input, input id), and every \<^verbatim>\<open>taskDiscoveredDependency\<close> call as (task's key,
  reported key).
\<close>

record 'v Engine =
  results :: "KeyType \<Rightarrow> 'v Result option"
  currentIteration :: nat
  completeKeys :: "KeyType list"
  scanningKeys :: "KeyType list"
  builtKeys :: "string list"
  deliveries :: "(KeyType \<times> KeyType \<times> nat) list"
  discoveries :: "(KeyType \<times> KeyType) list"

text \<open>
  Modelled from the spec: the ways a build fails (section 4.3, failure semantics): no
  rule for a key, a cycle on the scan stack; and, of the model only, a task that never
  completes and the fuel running out.
\<close>

datatype build_error =
    MissingDependency KeyType
  | Cycle KeyType
  | Stalled KeyType
  | OutOfFuel

text \<open>
  Modelled from the spec: the engine's handling of \<^verbatim>\<open>taskIsComplete\<close> (not among the
  sources). Completion of the task of \<open>k\<close> with value \<open>v\<close>: the result record that is
  written, and the rule marked complete.
\<close>

definition completeTask ::
  "KeyType \<Rightarrow> 'v \<Rightarrow> KeyType list \<Rightarrow> KeyType list \<Rightarrow> 'v Engine \<Rightarrow> 'v Engine" where
  "completeTask k v declared discovered s =
     s\<lparr>results := (results s)(k \<mapsto>
          \<lparr>resultValue = v,
           builtAt = (case results s k of
                        None \<Rightarrow> currentIteration s
                      | Some prior \<Rightarrow>
                          if resultValue prior = v then builtAt prior else currentIteration s),
           checkedAt = currentIteration s,
           declaredDeps = declared,
           discoveredDeps = discovered\<rparr>),
       completeKeys := k # completeKeys s,
       scanningKeys := removeAll k (scanningKeys s)\<rparr>"

text \<open>
  Modelled from the spec: step 4 of the frame algorithm (the engine's scan is not among
  the sources), for a scan that found the stored result still valid.
\<close>

definition markChecked :: "KeyType \<Rightarrow> 'v Result \<Rightarrow> 'v Engine \<Rightarrow> 'v Engine" where
  "markChecked k prior s =
     s\<lparr>results := (results s)(k \<mapsto> prior\<lparr>checkedAt := currentIteration s\<rparr>),
       completeKeys := k # completeKeys s,
       scanningKeys := removeAll k (scanningKeys s)\<rparr>"

text \<open>
  Modelled from the spec: the build algorithm of section 4.3 (the engine's scanning and
  execution are not among the sources).
  \<open>resolve\<close> brings a key up to date: nothing to do when it is complete in this
  build, a cycle when it is on the scan stack, otherwise the frame algorithm (no prior
  result, validator, dependencies in order) and, where that marks the rule as needing
  to run, the execution of its task.
  \<open>scanDependencies\<close> is step 3 for the stored dependency set, against the built
  iteration of the frame's result.
  \<open>runTask\<close> serves the requests of one task callback in order; \<open>waiting\<close> holds
  when \<^verbatim>\<open>inputsAvailable\<close> is due once the requests at hand are served (after
  \<^verbatim>\<open>start\<close>, and after a callback that asked for further inputs).
  \<open>resolveAll\<close> brings the discovered dependencies up to date after completion.
\<close>

function resolve ::
    "nat \<Rightarrow> (KeyType \<Rightarrow> ('v, 'ts) Rule option) \<Rightarrow> KeyType \<Rightarrow> 'v Engine \<Rightarrow> build_error + 'v Engine"
  and scanDependencies ::
    "nat \<Rightarrow> (KeyType \<Rightarrow> ('v, 'ts) Rule option) \<Rightarrow> nat \<Rightarrow> KeyType list \<Rightarrow> 'v Engine \<Rightarrow>
       build_error + (bool \<times> 'v Engine)"
  and runTask ::
    "nat \<Rightarrow> (KeyType \<Rightarrow> ('v, 'ts) Rule option) \<Rightarrow> KeyType \<Rightarrow> ('v, 'ts) Rule \<Rightarrow> 'ts \<Rightarrow>
       'v action list \<Rightarrow> bool \<Rightarrow> KeyType list \<Rightarrow> KeyType list \<Rightarrow> 'v Engine \<Rightarrow>
       build_error + 'v Engine"
  and resolveAll ::
    "nat \<Rightarrow> (KeyType \<Rightarrow> ('v, 'ts) Rule option) \<Rightarrow> KeyType list \<Rightarrow> 'v Engine \<Rightarrow>
       build_error + 'v Engine"
where
  "resolve 0 R k s = Inl OutOfFuel"
| "resolve (Suc n) R k s =
     (if k \<in> set (completeKeys s) then Inr s
      else if k \<in> set (scanningKeys s) then Inl (Cycle k)
      else (case R k of
              None \<Rightarrow> Inl (MissingDependency k)
            | Some r \<Rightarrow>
                (case results s k of
                   None \<Rightarrow>
                     runTask n R k r (snd (createTask r)) (taskStart r (snd (createTask r)))
                       True [] []
                       (s\<lparr>scanningKeys := k # scanningKeys s,
                          builtKeys := builtKeys s @ fst (createTask r)\<rparr>)
                 | Some prior \<Rightarrow>
                     (case (if \<not> ruleIsValid r (resultValue prior)
                            then Inr (True, s\<lparr>scanningKeys := k # scanningKeys s\<rparr>)
                            else scanDependencies n R (builtAt prior)
                                   (declaredDeps prior @ discoveredDeps prior)
                                   (s\<lparr>scanningKeys := k # scanningKeys s\<rparr>)) of
                        Inl e \<Rightarrow> Inl e
                      | Inr (dirty, s') \<Rightarrow>
                          if \<not> dirty then Inr (markChecked k prior s')
                          else
                            runTask n R k r
                              (taskProvidePriorValue r (resultValue prior) (snd (createTask r)))
                              (taskStart r
                                 (taskProvidePriorValue r (resultValue prior)
                                    (snd (createTask r))))
                              True [] []
                              (s'\<lparr>builtKeys := builtKeys s' @ fst (createTask r)\<rparr>)))))"
| "scanDependencies 0 R built ds s = Inl OutOfFuel"
| "scanDependencies (Suc n) R built ds s =
     (case ds of
        [] \<Rightarrow> Inr (False, s)
      | d # ds' \<Rightarrow>
          (case resolve n R d s of
             Inl e \<Rightarrow> Inl e
           | Inr s' \<Rightarrow>
               (case results s' d of
                  None \<Rightarrow> Inl (MissingDependency d)
                | Some rd \<Rightarrow>
                    if builtAt rd > built then Inr (True, s')
                    else scanDependencies n R built ds' s')))"
| "runTask 0 R k r ts acts waiting declared discovered s = Inl OutOfFuel"
| "runTask (Suc n) R k r ts acts waiting declared discovered s =
     (case acts of
        [] \<Rightarrow>
          if waiting then
            runTask n R k r ts (taskInputsAvailable r ts) False declared discovered s
          else Inl (Stalled k)
      | TaskNeedsInput d i # acts' \<Rightarrow>
          (case resolve n R d s of
             Inl e \<Rightarrow> Inl e
           | Inr s' \<Rightarrow>
               (case results s' d of
                  None \<Rightarrow> Inl (MissingDependency d)
                | Some rd \<Rightarrow>
                    runTask n R k r (taskProvideValue r i (resultValue rd) ts) acts' True
                      (declared @ [d]) discovered
                      (s'\<lparr>deliveries := deliveries s' @ [(k, d, i)]\<rparr>)))
      | TaskDiscoveredDependency d # acts' \<Rightarrow>
          runTask n R k r ts acts' waiting declared (discovered @ [d])
            (s\<lparr>discoveries := discoveries s @ [(k, d)]\<rparr>)
      | BuiltKey x # acts' \<Rightarrow>
          runTask n R k r ts acts' waiting declared discovered
            (s\<lparr>builtKeys := builtKeys s @ [x]\<rparr>)
      | TaskIsComplete v # acts' \<Rightarrow>
          resolveAll n R discovered (completeTask k v declared discovered s))"
| "resolveAll 0 R ds s = Inl OutOfFuel"
| "resolveAll (Suc n) R ds s =
     (case ds of
        [] \<Rightarrow> Inr s
      | d # ds' \<Rightarrow>
          (case resolve n R d s of
             Inl e \<Rightarrow> Inl e
           | Inr s' \<Rightarrow> resolveAll n R ds' s'))"
  by pat_completeness auto
termination
  by (relation "measure (case_sum (case_sum (\<lambda>a. fst a) (\<lambda>a. fst a))
                                  (case_sum (\<lambda>a. fst a) (\<lambda>a. fst a)))")
     simp_all

declare resolve.simps [simp del] scanDependencies.simps [simp del]
  runTask.simps [simp del] resolveAll.simps [simp del]

text \<open>
  Modelled from the spec: \<^verbatim>\<open>BuildEngine::build(key)\<close> (not among the sources): a new
  iteration with fresh per-build rule states, the key brought
  up to date, and its value returned.
\<close>

definition engineBuild ::
  "nat \<Rightarrow> (KeyType \<Rightarrow> ('v, 'ts) Rule option) \<Rightarrow> KeyType \<Rightarrow> 'v Engine \<Rightarrow>
     build_error + ('v \<times> 'v Engine)" where
  "engineBuild fuel R k s =
     (case resolve fuel R k
             (s\<lparr>currentIteration := currentIteration s + 1, completeKeys := [],
                scanningKeys := []\<rparr>) of
        Inl e \<Rightarrow> Inl e
      | Inr s' \<Rightarrow>
          (case results s' k of
             None \<Rightarrow> Inl (MissingDependency k)
           | Some r \<Rightarrow> Inr (resultValue r, s')))"

text \<open>Modelled from the spec: a fresh engine, with no stored result, before its first build.\<close>

definition newEngine :: "'v Engine" where
  "newEngine =
     \<lparr>results = (\<lambda>k. None), currentIteration = 0, completeKeys = [], scanningKeys = [],
      builtKeys = [], deliveries = [], discoveries = []\<rparr>"

subsection \<open>The unit test of discovered dependencies (unittests/Core/BuildEngineTest.cpp)\<close>

text \<open>
  The test carries its \<^verbatim>\<open>int\<close> values in four bytes (\<^verbatim>\<open>intToValue\<close>,
  \<^verbatim>\<open>intFromValue\<close>); here a value is the integer itself, and products are taken in
  the integers.

  \<^verbatim>\<open>SimpleTask\<close> through \<^verbatim>\<open>simpleAction(inputs, compute)\<close>: the task requests its
  inputs in order, stores each provided value at its input id, and completes with
  \<^verbatim>\<open>compute(inputValues)\<close>. \<open>compute\<close> returns the keys it pushes to
  \<^verbatim>\<open>builtKeys\<close> and the computed value.
\<close>

definition simpleAction ::
  "KeyType list \<Rightarrow> (int list \<Rightarrow> string list \<times> int) \<Rightarrow> (int \<Rightarrow> bool) \<Rightarrow> (int, int list) Rule" where
  "simpleAction inputKeys compute valid =
     \<lparr>createTask = ([], replicate (length inputKeys) 0),
      taskStart = (\<lambda>ts. map (\<lambda>(key, i). TaskNeedsInput key i)
                            (zip inputKeys [0..<length inputKeys])),
      taskProvidePriorValue = (\<lambda>v ts. ts),
      taskProvideValue = (\<lambda>i v ts. ts[i := v]),
      taskInputsAvailable =
        (\<lambda>ts. map BuiltKey (fst (compute ts)) @ [TaskIsComplete (snd (compute ts))]),
      ruleIsValid = valid\<rparr>"

text \<open>
  \<^verbatim>\<open>TaskWithDiscoveredDependency\<close> with the action of the rule \<^verbatim>\<open>output\<close>, which
  pushes \<^verbatim>\<open>"output"\<close> when it creates the task. The task state is
  \<^verbatim>\<open>computedInputValue\<close>, \<open>-1\<close> at first. \<^verbatim>\<open>valueB\<close> is read out of band.
\<close>

definition taskWithDiscoveredDependency :: "int \<Rightarrow> (int, int list) Rule" where
  "taskWithDiscoveredDependency valueB =
     \<lparr>createTask = ([''output''], [- 1]),
      taskStart = (\<lambda>ts. [TaskNeedsInput ''value-A'' 0]),
      taskProvidePriorValue = (\<lambda>v ts. ts),
      taskProvideValue = (\<lambda>i v ts. [v]),
      taskInputsAvailable =
        (\<lambda>ts. [TaskDiscoveredDependency ''value-B'',
               TaskIsComplete ((case ts of c # _ \<Rightarrow> c | [] \<Rightarrow> - 1) * valueB * 5)]),
      ruleIsValid = (\<lambda>v. True)\<rparr>"

text \<open>
  The three rules of the test, for the current \<^verbatim>\<open>valueA\<close> and \<^verbatim>\<open>valueB\<close>. The
  delegate of the test has no rule for any other key.
\<close>

definition discoveredDependenciesRules ::
  "int \<Rightarrow> int \<Rightarrow> KeyType \<Rightarrow> (int, int list) Rule option" where
  "discoveredDependenciesRules valueA valueB key =
     (if key = ''value-A'' then
        Some (simpleAction [] (\<lambda>inputs. ([''value-A''], valueA)) (\<lambda>v. valueA = v))
      else if key = ''value-B'' then
        Some (simpleAction [] (\<lambda>inputs. ([''value-B''], valueB)) (\<lambda>v. valueB = v))
      else if key = ''output'' then Some (taskWithDiscoveredDependency valueB)
      else None)"

text \<open>
  The two rules of the test \<^verbatim>\<open>unchangedOutputs\<close>: \<open>value\<close>, whose validator always
  answers false, and \<open>result\<close>, which takes it as its input.
\<close>

definition unchangedOutputsRules :: "KeyType \<Rightarrow> (int, int list) Rule option" where
  "unchangedOutputsRules key =
     (if key = ''value'' then
        Some (simpleAction [] (\<lambda>inputs. ([''value''], 2)) (\<lambda>v. False))
      else if key = ''result'' then
        Some (simpleAction [''value''] (\<lambda>inputs. ([''result''], inputs ! 0 * 3)) (\<lambda>v. True))
      else None)"

text \<open>\<^verbatim>\<open>builtKeys.clear()\<close> between two builds.\<close>

definition clearBuiltKeys :: "'v Engine \<Rightarrow> 'v Engine" where
  "clearBuiltKeys s = s\<lparr>builtKeys := []\<rparr>"

text \<open>The state of the engine after the first build of the test.\<close>

definition afterFirstBuild :: "int \<Rightarrow> int \<Rightarrow> int Engine" where
  "afterFirstBuild valueA valueB =
     \<lparr>results =
        ((\<lambda>k. None)
          (''value-A'' \<mapsto> \<lparr>resultValue = valueA, builtAt = 1, checkedAt = 1,
                           declaredDeps = [], discoveredDeps = []\<rparr>,
           ''output'' \<mapsto> \<lparr>resultValue = valueA * valueB * 5, builtAt = 1, checkedAt = 1,
                          declaredDeps = [''value-A''], discoveredDeps = [''value-B'']\<rparr>,
           ''value-B'' \<mapsto> \<lparr>resultValue = valueB, builtAt = 1, checkedAt = 1,
                           declaredDeps = [], discoveredDeps = []\<rparr>)),
      currentIteration = 1,
      completeKeys = [''value-B'', ''output'', ''value-A''],
      scanningKeys = [],
      builtKeys = [''output'', ''value-A'', ''value-B''],
      deliveries = [(''output'', ''value-A'', 0)],
      discoveries = [(''output'', ''value-B'')]\<rparr>"

subsection \<open>Relating the states before and after a call\<close>

text \<open>A rule is never complete and on the scan stack at once.\<close>

definition consistent :: "'v Engine \<Rightarrow> bool" where
  "consistent s \<longleftrightarrow> set (completeKeys s) \<inter> set (scanningKeys s) = {}"

text \<open>
  A key is settled with a dependency \<open>d\<close> in a state when its rule is complete and
  its stored result lists \<open>d\<close> among the declared (respectively discovered)
  dependencies.
\<close>

definition declaredIn :: "'v Engine \<Rightarrow> KeyType \<Rightarrow> KeyType \<Rightarrow> bool" where
  "declaredIn s k d \<longleftrightarrow>
     k \<in> set (completeKeys s) \<and> (\<exists>res. results s k = Some res \<and> d \<in> set (declaredDeps res))"

definition discoveredIn :: "'v Engine \<Rightarrow> KeyType \<Rightarrow> KeyType \<Rightarrow> bool" where
  "discoveredIn s k d \<longleftrightarrow>
     k \<in> set (completeKeys s) \<and> (\<exists>res. results s k = Some res \<and> d \<in> set (discoveredDeps res))"

text \<open>
  The relation between the state before and after a call: complete rules stay complete
  with their results untouched; rules on the scan stack stay there, but for those in
  \<open>X\<close>; each value delivered during the call went to a task whose stored result
  declares the key, and each discovered dependency reported during the call is in the
  stored result of the reporting task.
\<close>

definition frame :: "KeyType set \<Rightarrow> 'v Engine \<Rightarrow> 'v Engine \<Rightarrow> bool" where
  "frame X s s' \<longleftrightarrow>
     consistent s' \<and>
     (\<forall>k \<in> set (completeKeys s). k \<in> set (completeKeys s') \<and> results s' k = results s k) \<and>
     (\<forall>k \<in> set (scanningKeys s). k \<notin> X \<longrightarrow> k \<in> set (scanningKeys s')) \<and>
     (\<exists>new. deliveries s' = deliveries s @ new \<and>
        (\<forall>(k, d, i) \<in> set new. declaredIn s' k d)) \<and>
     (\<exists>new. discoveries s' = discoveries s @ new \<and>
        (\<forall>(k, d) \<in> set new. discoveredIn s' k d))"


section \<open>Properties of the external command rule\<close>

subsection \<open>The signature\<close>

lemma foldl_xor_hashes:
  "foldl (\<lambda>r n. r XOR h (getName n)) acc ns = acc XOR xor_of_hashes h (map getName ns)"
  by (induction ns arbitrary: acc) (simp_all add: xor.assoc)

lemma xor_of_hashes_append:
  "xor_of_hashes h (xs @ ys) = xor_of_hashes h xs XOR xor_of_hashes h ys"
  by (induction xs) (simp_all add: xor.assoc)

text \<open>
  C8. For every configured list of input nodes and output nodes, \<^verbatim>\<open>getSignature()\<close>
  returns exactly the XOR of the 64-bit hashes of all input node names and all output
  node names.
\<close>

theorem getSignature_is_xor:
  "getSignature hashString c =
     xor_of_hashes hashString (map getName (inputs c) @ map getName (outputs c))"
  by (simp add: getSignature_def foldl_xor_hashes xor_of_hashes_append)

subsection \<open>Failure propagation to the outputs\<close>

text \<open>
  C6. For every output node and every command result value \<open>v\<close>: if \<open>v\<close> is a
  FailedCommand or a SkippedCommand value, then \<^verbatim>\<open>getResultForOutput(node, v)\<close> returns
  a FailedInput value.
\<close>

theorem getResultForOutput_failure:
  "isFailedCommand v \<or> isSkippedCommand v \<Longrightarrow>
     getResultForOutput isMissing c node v = Inr FailedInput"
  by (simp add: getResultForOutput_def)

theorem getResultForOutput_failure_witness:
  "getResultForOutput (\<lambda>info. info = (0::nat))
     \<lparr>inputs = [], outputs = [\<lparr>getName = ''a.o'', isVirtual = False\<rparr>], description = [],
      shouldSkip = False, hasMissingInput = False\<rparr>
     \<lparr>getName = ''a.o'', isVirtual = False\<rparr> FailedCommand = Inr FailedInput \<and>
   getResultForOutput (\<lambda>info. info = (0::nat))
     \<lparr>inputs = [], outputs = [\<lparr>getName = ''a.o'', isVirtual = False\<rparr>], description = [],
      shouldSkip = False, hasMissingInput = False\<rparr>
     \<lparr>getName = ''a.o'', isVirtual = False\<rparr> SkippedCommand = Inr FailedInput"
  using getResultForOutput_failure [of FailedCommand "\<lambda>info. info = (0::nat)"]
    getResultForOutput_failure [of SkippedCommand "\<lambda>info. info = (0::nat)"]
  by simp

subsection \<open>Validity of a stored result\<close>

lemma checkOutputs_True_iff:
  "checkOutputs isMissing getFileInfo v nodes i = Inr True \<longleftrightarrow>
     (\<forall>j < length nodes. \<not> isVirtual (nodes ! j) \<longrightarrow>
        \<not> isMissing (getFileInfo (nodes ! j)) \<and>
        getNthOutputInfo v (i + j) = Inr (getFileInfo (nodes ! j)))"
proof (induction nodes arbitrary: i)
  case Nil
  then show ?case by simp
next
  case (Cons node rest)
  show ?case
    by (cases "getNthOutputInfo v i")
       (auto simp: All_less_Suc2 Cons.IH Let_def)
qed

text \<open>
  C2. For every stored value \<open>v\<close>, \<^verbatim>\<open>isResultValid(v)\<close> returns true if and only if
  \<open>v\<close> is a successful-command value, the command signature stored in \<open>v\<close> equals the
  signature computed now from the input and output node names, and for every
  non-virtual output node the current file metadata is not missing and equals the
  metadata stored in \<open>v\<close> at the index of that output.
\<close>

theorem isResultValid_iff:
  "isResultValid hashString isMissing getFileInfo c v = Inr True \<longleftrightarrow>
     isSuccessfulCommand v \<and>
     getCommandSignature v = Inr (getSignature hashString c) \<and>
     (\<forall>i < length (outputs c). \<not> isVirtual (outputs c ! i) \<longrightarrow>
        \<not> isMissing (getFileInfo (outputs c ! i)) \<and>
        getNthOutputInfo v i = Inr (getFileInfo (outputs c ! i)))"
  by (cases v) (auto simp: isResultValid_def checkOutputs_True_iff)

theorem isResultValid_iff_witness:
  "isResultValid (\<lambda>name. of_nat (length name)) (\<lambda>info. info = (0::nat))
     (\<lambda>node. if getName node = ''a.o'' then 7 else 0)
     \<lparr>inputs = [\<lparr>getName = ''a.c'', isVirtual = False\<rparr>],
      outputs = [\<lparr>getName = ''a.o'', isVirtual = False\<rparr>, \<lparr>getName = ''<all>'', isVirtual = True\<rparr>],
      description = [], shouldSkip = False, hasMissingInput = False\<rparr>
     (SuccessfulCommand [7, 0] 5) = Inr True \<and>
   isResultValid (\<lambda>name. of_nat (length name)) (\<lambda>info. info = (0::nat))
     (\<lambda>node. if getName node = ''a.o'' then 8 else 0)
     \<lparr>inputs = [\<lparr>getName = ''a.c'', isVirtual = False\<rparr>],
      outputs = [\<lparr>getName = ''a.o'', isVirtual = False\<rparr>, \<lparr>getName = ''<all>'', isVirtual = True\<rparr>],
      description = [], shouldSkip = False, hasMissingInput = False\<rparr>
     (SuccessfulCommand [7, 0] 5) \<noteq> Inr True"
  unfolding isResultValid_iff
  by (simp add: getSignature_def All_less_Suc2)

subsection \<open>Skipping on missing or failed inputs\<close>

lemma requestInputs_keeps:
  "delegate (requestInputs ns i bsci) = delegate bsci \<and>
   completions (requestInputs ns i bsci) = completions bsci \<and>
   jobs (requestInputs ns i bsci) = jobs bsci"
  by (induction ns arbitrary: i bsci) (simp_all add: taskNeedsInput_def)

lemma provideValue_input:
  assumes "i < length (inputs c)"
      and "isExistingInput v \<or> isVirtualInput v \<or> isMissingInput v \<or> isFailedInput v"
  shows "\<exists>c' bsci'. provideValue c bsci i v = Inr (c', bsci') \<and>
           inputs c' = inputs c \<and> outputs c' = outputs c \<and>
           completions bsci' = completions bsci \<and> jobs bsci' = jobs bsci \<and>
           isCancelled (delegate bsci') = isCancelled (delegate bsci) \<and>
           shouldSkip c' = (shouldSkip c \<or> isMissingInput v \<or> isFailedInput v) \<and>
           hasMissingInput c' = (hasMissingInput c \<or> isMissingInput v)"
  using assms
  by (cases v) (simp_all add: provideValue_def isCancelled_def getNumFailedCommands_def error_def)

lemma provideValues_inputs:
  assumes "\<forall>(i, v) \<in> set resolved. i < length (inputs c)"
      and "\<forall>(i, v) \<in> set resolved.
             isExistingInput v \<or> isVirtualInput v \<or> isMissingInput v \<or> isFailedInput v"
  shows "\<exists>c' bsci'. provideValues c bsci resolved = Inr (c', bsci') \<and>
           inputs c' = inputs c \<and> outputs c' = outputs c \<and>
           completions bsci' = completions bsci \<and> jobs bsci' = jobs bsci \<and>
           isCancelled (delegate bsci') = isCancelled (delegate bsci) \<and>
           shouldSkip c' =
             (shouldSkip c \<or> (\<exists>(i, v) \<in> set resolved. isMissingInput v \<or> isFailedInput v)) \<and>
           hasMissingInput c' =
             (hasMissingInput c \<or> (\<exists>(i, v) \<in> set resolved. isMissingInput v))"
  using assms
proof (induction resolved arbitrary: c bsci)
  case Nil
  then show ?case by simp
next
  case (Cons r rest)
  obtain i v where r: "r = (i, v)" by (cases r)
  from Cons.prems r have iv: "i < length (inputs c)"
    "isExistingInput v \<or> isVirtualInput v \<or> isMissingInput v \<or> isFailedInput v"
    by auto
  from provideValue_input [OF iv, of bsci]
  obtain c1 b1 where step: "provideValue c bsci i v = Inr (c1, b1)"
    and keep: "inputs c1 = inputs c" "outputs c1 = outputs c"
      "completions b1 = completions bsci" "jobs b1 = jobs bsci"
      "isCancelled (delegate b1) = isCancelled (delegate bsci)"
    and flags: "shouldSkip c1 = (shouldSkip c \<or> isMissingInput v \<or> isFailedInput v)"
      "hasMissingInput c1 = (hasMissingInput c \<or> isMissingInput v)"
    by blast
  have "\<forall>(i, v) \<in> set rest. i < length (inputs c1)"
    using Cons.prems(1) keep(1) by auto
  moreover have "\<forall>(i, v) \<in> set rest.
      isExistingInput v \<or> isVirtualInput v \<or> isMissingInput v \<or> isFailedInput v"
    using Cons.prems(2) by auto
  ultimately obtain c2 b2 where rest: "provideValues c1 b1 rest = Inr (c2, b2)"
    and keep2: "inputs c2 = inputs c1" "outputs c2 = outputs c1"
      "completions b2 = completions b1" "jobs b2 = jobs b1"
      "isCancelled (delegate b2) = isCancelled (delegate b1)"
    and flags2: "shouldSkip c2 =
        (shouldSkip c1 \<or> (\<exists>(i, v) \<in> set rest. isMissingInput v \<or> isFailedInput v))"
      "hasMissingInput c2 = (hasMissingInput c1 \<or> (\<exists>(i, v) \<in> set rest. isMissingInput v))"
    using Cons.IH [of c1 b1] by blast
  have "provideValues c bsci (r # rest) = Inr (c2, b2)"
    by (simp add: r step rest)
  then show ?case
    using keep keep2 flags flags2 r by auto
qed

lemma execute_inputsAvailable:
  assumes ids: "\<forall>(i, v) \<in> set resolved. i < length (inputs c)"
      and vals: "\<forall>(i, v) \<in> set resolved.
             isExistingInput v \<or> isVirtualInput v \<or> isMissingInput v \<or> isFailedInput v"
  shows "\<exists>c2 b2. execute c bsci resolved = inputsAvailable c2 b2 \<and>
           outputs c2 = outputs c \<and> completions b2 = completions bsci \<and>
           jobs b2 = jobs bsci \<and>
           isCancelled (delegate b2) = isCancelled (delegate bsci) \<and>
           shouldSkip c2 = (\<exists>(i, v) \<in> set resolved. isMissingInput v \<or> isFailedInput v) \<and>
           hasMissingInput c2 = (\<exists>(i, v) \<in> set resolved. isMissingInput v)"
proof -
  obtain c1 b1 where st: "start c bsci = (c1, b1)" by (cases "start c bsci")
  then have c1: "inputs c1 = inputs c" "outputs c1 = outputs c"
      "\<not> shouldSkip c1" "\<not> hasMissingInput c1"
    and b1: "delegate b1 = delegate bsci" "completions b1 = completions bsci"
      "jobs b1 = jobs bsci"
    by (auto simp: start_def requestInputs_keeps)
  from ids c1(1) have ids1: "\<forall>(i, v) \<in> set resolved. i < length (inputs c1)" by simp
  from provideValues_inputs [OF ids1 vals, of b1]
  obtain c2 b2 where pv: "provideValues c1 b1 resolved = Inr (c2, b2)"
    and keep: "outputs c2 = outputs c1" "completions b2 = completions b1" "jobs b2 = jobs b1"
      "isCancelled (delegate b2) = isCancelled (delegate b1)"
    and flags: "shouldSkip c2 =
        (shouldSkip c1 \<or> (\<exists>(i, v) \<in> set resolved. isMissingInput v \<or> isFailedInput v))"
      "hasMissingInput c2 = (hasMissingInput c1 \<or> (\<exists>(i, v) \<in> set resolved. isMissingInput v))"
    by blast
  have "execute c bsci resolved = inputsAvailable c2 b2"
    by (simp add: execute_def st pv)
  with keep flags c1 b1 show ?thesis by auto
qed

text \<open>
  Where the command is skipped. Every resolved input carries the id of a configured
  input and an input value. If some input resolves to a missing-input or failed-input
  value, the task is completed with SkippedCommand and no job is submitted, in each of
  these cases: the build is cancelled, or no input is missing (one has failed), or the
  command has an output node.
\<close>

lemma execute_skips:
  assumes ids: "\<forall>(i, v) \<in> set resolved. i < length (inputs c)"
      and vals: "\<forall>(i, v) \<in> set resolved.
             isExistingInput v \<or> isVirtualInput v \<or> isMissingInput v \<or> isFailedInput v"
      and bad: "\<exists>(i, v) \<in> set resolved. isMissingInput v \<or> isFailedInput v"
      and safe: "isCancelled (delegate bsci) \<or> \<not> (\<exists>(i, v) \<in> set resolved. isMissingInput v) \<or>
                 outputs c \<noteq> []"
  shows "\<exists>bsci'. execute c bsci resolved = Inr bsci' \<and>
           completions bsci' = completions bsci @ [SkippedCommand] \<and>
           jobs bsci' = jobs bsci"
proof -
  from execute_inputsAvailable [OF ids vals, of bsci]
  obtain c2 b2 where ex: "execute c bsci resolved = inputsAvailable c2 b2"
    and keep: "outputs c2 = outputs c" "completions b2 = completions bsci"
      "jobs b2 = jobs bsci" "isCancelled (delegate b2) = isCancelled (delegate bsci)"
    and flags: "shouldSkip c2 = (\<exists>(i, v) \<in> set resolved. isMissingInput v \<or> isFailedInput v)"
      "hasMissingInput c2 = (\<exists>(i, v) \<in> set resolved. isMissingInput v)"
    by blast
  from bad flags have skip: "shouldSkip c2" by simp
  from safe have "isCancelled (delegate b2) \<or> \<not> hasMissingInput c2 \<or> outputs c2 \<noteq> []"
    by (simp only: keep flags)
  then consider (cancelled) "isCancelled (delegate b2)"
    | (failed) "\<not> isCancelled (delegate b2)" "\<not> hasMissingInput c2"
    | (outputs) "\<not> isCancelled (delegate b2)" "hasMissingInput c2" "outputs c2 \<noteq> []"
    by blast
  then have "\<exists>bsci'. inputsAvailable c2 b2 = Inr bsci' \<and>
               completions bsci' = completions b2 @ [SkippedCommand] \<and> jobs bsci' = jobs b2"
  proof cases
    case cancelled
    then show ?thesis by (simp add: inputsAvailable_def taskIsComplete_def)
  next
    case failed
    with skip show ?thesis by (simp add: inputsAvailable_def taskIsComplete_def)
  next
    case outputs
    then obtain o0 os where "outputs c2 = o0 # os"
      by (cases "outputs c2") simp_all
    with outputs skip show ?thesis by (simp add: inputsAvailable_def taskIsComplete_def)
  qed
  with ex keep show ?thesis by simp
qed

text \<open>
  Where the job is submitted: every input resolves to an existing or virtual input and
  the build is not cancelled. The task is not completed and one job is submitted.
\<close>

lemma execute_submits:
  assumes ids: "\<forall>(i, v) \<in> set resolved. i < length (inputs c)"
      and good: "\<forall>(i, v) \<in> set resolved. isExistingInput v \<or> isVirtualInput v"
      and run: "\<not> isCancelled (delegate bsci)"
  shows "\<exists>bsci'. execute c bsci resolved = Inr bsci' \<and>
           completions bsci' = completions bsci \<and>
           jobs bsci' = jobs bsci @ [c\<lparr>shouldSkip := False, hasMissingInput := False\<rparr>]"
proof -
  obtain c1 b1 where st: "start c bsci = (c1, b1)" by (cases "start c bsci")
  then have c1: "c1 = c\<lparr>shouldSkip := False, hasMissingInput := False\<rparr>"
    and b1: "delegate b1 = delegate bsci" "completions b1 = completions bsci"
      "jobs b1 = jobs bsci"
    by (auto simp: start_def requestInputs_keeps)
  have pv: "provideValues c1 b resolved = Inr (c1, b)" for b
    using good
  proof (induction resolved)
    case Nil
    then show ?case by simp
  next
    case (Cons r rest)
    obtain i v where r: "r = (i, v)" by (cases r)
    with Cons.prems have "isExistingInput v \<or> isVirtualInput v" by simp
    then have "provideValue c1 b i v = Inr (c1, b)"
      by (cases v) (simp_all add: provideValue_def)
    with Cons r show ?case by simp
  qed
  have "execute c bsci resolved = inputsAvailable c1 b1"
    by (simp add: execute_def st pv)
  with c1 b1 run show ?thesis
    by (simp add: inputsAvailable_def addJob_def)
qed

text \<open>
  The case left over: an input is missing, the build is not cancelled and the command
  has no output node. \<^verbatim>\<open>inputsAvailable\<close> names \<^verbatim>\<open>outputs[0]\<close> in its message, a read
  outside the empty vector, before it reaches \<^verbatim>\<open>taskIsComplete\<close>.
\<close>

lemma execute_no_outputs:
  assumes ids: "\<forall>(i, v) \<in> set resolved. i < length (inputs c)"
      and vals: "\<forall>(i, v) \<in> set resolved.
             isExistingInput v \<or> isVirtualInput v \<or> isMissingInput v \<or> isFailedInput v"
      and missing: "\<exists>(i, v) \<in> set resolved. isMissingInput v"
      and run: "\<not> isCancelled (delegate bsci)"
      and none: "outputs c = []"
  shows "execute c bsci resolved = Inl OutOfBounds"
proof -
  from execute_inputsAvailable [OF ids vals, of bsci]
  obtain c2 b2 where ex: "execute c bsci resolved = inputsAvailable c2 b2"
    and keep: "outputs c2 = outputs c" "isCancelled (delegate b2) = isCancelled (delegate bsci)"
    and flags: "shouldSkip c2 = (\<exists>(i, v) \<in> set resolved. isMissingInput v \<or> isFailedInput v)"
      "hasMissingInput c2 = (\<exists>(i, v) \<in> set resolved. isMissingInput v)"
    by blast
  from missing flags have "shouldSkip c2" "hasMissingInput c2" by auto
  with ex keep run none show ?thesis by (simp add: inputsAvailable_def)
qed

text \<open>
  The lemmas at work on a command with two inputs and one output: skipped when the
  second input is missing, submitted when both inputs are there.
\<close>

lemma execute_skips_instance:
  "\<exists>bsci'. execute
       \<lparr>inputs = [\<lparr>getName = ''a.c'', isVirtual = False\<rparr>, \<lparr>getName = ''a.h'', isVirtual = False\<rparr>],
        outputs = [\<lparr>getName = ''a.o'', isVirtual = False\<rparr>], description = [],
        shouldSkip = False, hasMissingInput = False\<rparr>
       \<lparr>delegate = \<lparr>numErrors = 0, numFailedCommands = 0, printed = []\<rparr>,
        neededInputs = [], completions = [], jobs = []\<rparr>
       [(0, ExistingInput (5::nat)), (1, MissingInput)] = Inr bsci' \<and>
     completions bsci' = [SkippedCommand] \<and> jobs bsci' = []"
  using execute_skips
      [of "[(0, ExistingInput (5::nat)), (1, MissingInput)]"
          "\<lparr>inputs = [\<lparr>getName = ''a.c'', isVirtual = False\<rparr>, \<lparr>getName = ''a.h'', isVirtual = False\<rparr>],
            outputs = [\<lparr>getName = ''a.o'', isVirtual = False\<rparr>], description = [],
            shouldSkip = False, hasMissingInput = False\<rparr>"
          "\<lparr>delegate = \<lparr>numErrors = 0, numFailedCommands = 0, printed = []\<rparr>,
            neededInputs = [], completions = [], jobs = []\<rparr>"]
  by simp

lemma execute_submits_instance:
  "\<exists>bsci'. execute
       \<lparr>inputs = [\<lparr>getName = ''a.c'', isVirtual = False\<rparr>, \<lparr>getName = ''a.h'', isVirtual = False\<rparr>],
        outputs = [\<lparr>getName = ''a.o'', isVirtual = False\<rparr>], description = [],
        shouldSkip = False, hasMissingInput = False\<rparr>
       \<lparr>delegate = \<lparr>numErrors = 0, numFailedCommands = 0, printed = []\<rparr>,
        neededInputs = [], completions = [], jobs = []\<rparr>
       [(0, ExistingInput (5::nat)), (1, VirtualInput)] = Inr bsci' \<and>
     completions bsci' = [] \<and> length (jobs bsci') = 1"
  using execute_submits
      [of "[(0, ExistingInput (5::nat)), (1, VirtualInput)]"
          "\<lparr>inputs = [\<lparr>getName = ''a.c'', isVirtual = False\<rparr>, \<lparr>getName = ''a.h'', isVirtual = False\<rparr>],
            outputs = [\<lparr>getName = ''a.o'', isVirtual = False\<rparr>], description = [],
            shouldSkip = False, hasMissingInput = False\<rparr>"
          "\<lparr>delegate = \<lparr>numErrors = 0, numFailedCommands = 0, printed = []\<rparr>,
            neededInputs = [], completions = [], jobs = []\<rparr>"]
  by (auto simp: isCancelled_def getNumFailedCommands_def)

text \<open>
  C3. For every execution of an external command, if any requested input resolves to a
  missing-input or failed-input value, then when \<^verbatim>\<open>inputsAvailable\<close> runs the command
  completes with a SkippedCommand value and no job is submitted; if every input
  resolves to an existing or virtual input and the build is not cancelled, a job is
  submitted. The three lemmas above have this for every execution but one kind. For a
  command without output nodes whose input is missing, \<^verbatim>\<open>inputsAvailable\<close> evaluates
  \<^verbatim>\<open>outputs[0]->getName()\<close> on the empty vector for its message and the task is not
  completed; the same command with a failed input takes the branch beside it and
  completes with SkippedCommand.
\<close>

theorem execute_missing_input_no_outputs:
  "execute
     \<lparr>inputs = [\<lparr>getName = ''a.c'', isVirtual = False\<rparr>], outputs = [], description = [],
      shouldSkip = False, hasMissingInput = False\<rparr>
     \<lparr>delegate = \<lparr>numErrors = 0, numFailedCommands = 0, printed = []\<rparr>,
      neededInputs = [], completions = [], jobs = []\<rparr>
     [(0, MissingInput :: nat BuildValue)] = Inl OutOfBounds \<and>
   execute
     \<lparr>inputs = [\<lparr>getName = ''a.c'', isVirtual = False\<rparr>], outputs = [], description = [],
      shouldSkip = False, hasMissingInput = False\<rparr>
     \<lparr>delegate = \<lparr>numErrors = 0, numFailedCommands = 0, printed = []\<rparr>,
      neededInputs = [], completions = [], jobs = []\<rparr>
     [(0, FailedInput :: nat BuildValue)] =
     Inr \<lparr>delegate = \<lparr>numErrors = 0, numFailedCommands = 0, printed = []\<rparr>,
          neededInputs = [(''a.c'', 0)], completions = [SkippedCommand], jobs = []\<rparr>"
  by (simp add: execute_def start_def taskNeedsInput_def provideValue_def inputsAvailable_def
      isCancelled_def getNumFailedCommands_def error_def taskIsComplete_def)

section \<open>Properties of the frontend\<close>

text \<open>
  C7. \<^verbatim>\<open>BuildSystemFrontend::build(target)\<close> reports success if and only if the
  underlying build (reached with the build system prepared, and run from the delegate
  as it stands) succeeds and leaves the delegate's failed-command counter and error
  counter at zero; and whenever either counter is nonzero on return, it returns failure.
\<close>

theorem build_success_iff:
  "(fst (build host invocation target d) \<longleftrightarrow>
      (\<exists>system. prepare host invocation d = Inr system \<and>
         fst (systemBuild host target system d) \<and>
         getNumFailedCommands (snd (systemBuild host target system d)) = 0 \<and>
         getNumErrors (snd (systemBuild host target system d)) = 0)) \<and>
   (getNumFailedCommands (snd (build host invocation target d)) \<noteq> 0 \<or>
    getNumErrors (snd (build host invocation target d)) \<noteq> 0 \<longrightarrow>
      \<not> fst (build host invocation target d))"
  by (auto simp: build_def split: sum.splits prod.splits)


theorem build_success_iff_witness:
  "fst (build
     \<lparr>chdir = (\<lambda>p. None), newBuildSystem = (\<lambda>p. ()), enableTracing = (\<lambda>p s. Inr s),
      attachDB = (\<lambda>p s. Inr s), systemBuild = (\<lambda>t s d. (True, d)),
      has_relative_path = (\<lambda>p. True), parent_path = (\<lambda>p. []), append_path = (\<lambda>p q. p @ q)\<rparr>
     \<lparr>chdirPath = [], dbPath = ''build.db'', buildFilePath = ''build.llbuild'',
      traceFilePath = [], useSerialBuild = False, showVerboseStatus = False\<rparr>
     ''all'' \<lparr>numErrors = 0, numFailedCommands = 0, printed = []\<rparr>) \<and>
   \<not> fst (build
     \<lparr>chdir = (\<lambda>p. None), newBuildSystem = (\<lambda>p. ()), enableTracing = (\<lambda>p s. Inr s),
      attachDB = (\<lambda>p s. Inr s), systemBuild = (\<lambda>t s d. (True, hadCommandFailure d)),
      has_relative_path = (\<lambda>p. True), parent_path = (\<lambda>p. []), append_path = (\<lambda>p q. p @ q)\<rparr>
     \<lparr>chdirPath = [], dbPath = ''build.db'', buildFilePath = ''build.llbuild'',
      traceFilePath = [], useSerialBuild = False, showVerboseStatus = False\<rparr>
     ''all'' \<lparr>numErrors = 0, numFailedCommands = 0, printed = []\<rparr>)"
  unfolding build_success_iff [THEN conjunct1]
  by (simp add: prepare_def getNumErrors_def getNumFailedCommands_def hadCommandFailure_def)

text \<open>
  C9, as the spec states it, fails: the source applies no configured maximum. With 4
  processors and parallel mode the queue has 6 lanes, whatever smaller maximum (here 3)
  the spec's formula is given.
\<close>

theorem createExecutionQueue_counterexample:
  "uint (fst (createExecutionQueue
       \<lparr>chdirPath = [], dbPath = [], buildFilePath = [], traceFilePath = [],
        useSerialBuild = False, showVerboseStatus = False\<rparr>
       4 \<lparr>numErrors = 0, numFailedCommands = 0, printed = []\<rparr>)) = 6 \<and>
   uint (fst (createExecutionQueue
       \<lparr>chdirPath = [], dbPath = [], buildFilePath = [], traceFilePath = [],
        useSerialBuild = False, showVerboseStatus = False\<rparr>
       4 \<lparr>numErrors = 0, numFailedCommands = 0, printed = []\<rparr>)) \<noteq>
     spec_lane_count False 4 3"
  by (simp add: createExecutionQueue_def spec_lane_count_def)

text \<open>
  C9 (amended). When serial mode is requested the execution queue is created with
  exactly 1 lane; when it is not, the queue is created with the detected processor
  count plus 2 lanes (as a 32-bit unsigned; no maximum is applied), or, when the
  processor count cannot be detected (a negative result), with 1 lane after an error
  is reported.
\<close>

theorem createExecutionQueue_lanes:
  "(useSerialBuild invocation \<longrightarrow> createExecutionQueue invocation numCPUs d = (1, d)) \<and>
   (\<not> useSerialBuild invocation \<and> 0 \<le> numCPUs \<longrightarrow>
      createExecutionQueue invocation numCPUs d = (word_of_int (numCPUs + 2), d)) \<and>
   (\<not> useSerialBuild invocation \<and> 0 \<le> numCPUs \<and> numCPUs + 2 < 2 ^ 32 \<longrightarrow>
      uint (fst (createExecutionQueue invocation numCPUs d)) = numCPUs + 2) \<and>
   (\<not> useSerialBuild invocation \<and> numCPUs < 0 \<longrightarrow>
      fst (createExecutionQueue invocation numCPUs d) = 1 \<and>
      getNumErrors (snd (createExecutionQueue invocation numCPUs d)) = getNumErrors d + 1)"
proof -
  have "uint (word_of_int (numCPUs + 2) :: 32 word) = numCPUs + 2"
    if "0 \<le> numCPUs" "numCPUs + 2 < 2 ^ 32"
  proof -
    have "take_bit 32 (numCPUs + 2) = numCPUs + 2"
      using that by (intro take_bit_int_eq_self) simp_all
    then show ?thesis
      unfolding uint_word_of_int_eq by simp
  qed
  then show ?thesis
    by (simp add: createExecutionQueue_def getNumErrors_def error_def)
qed

theorem createExecutionQueue_lanes_witness:
  "createExecutionQueue
     \<lparr>chdirPath = [], dbPath = [], buildFilePath = [], traceFilePath = [],
      useSerialBuild = True, showVerboseStatus = False\<rparr>
     8 \<lparr>numErrors = 0, numFailedCommands = 0, printed = []\<rparr> =
     (1, \<lparr>numErrors = 0, numFailedCommands = 0, printed = []\<rparr>) \<and>
   uint (fst (createExecutionQueue
     \<lparr>chdirPath = [], dbPath = [], buildFilePath = [], traceFilePath = [],
      useSerialBuild = False, showVerboseStatus = False\<rparr>
     8 \<lparr>numErrors = 0, numFailedCommands = 0, printed = []\<rparr>)) = 10 \<and>
   fst (createExecutionQueue
     \<lparr>chdirPath = [], dbPath = [], buildFilePath = [], traceFilePath = [],
      useSerialBuild = False, showVerboseStatus = False\<rparr>
     (- 1) \<lparr>numErrors = 0, numFailedCommands = 0, printed = []\<rparr>) = 1"
  using createExecutionQueue_lanes
      [of "\<lparr>chdirPath = [], dbPath = [], buildFilePath = [], traceFilePath = [],
            useSerialBuild = True, showVerboseStatus = False\<rparr>" 8
          "\<lparr>numErrors = 0, numFailedCommands = 0, printed = []\<rparr>"]
    createExecutionQueue_lanes
      [of "\<lparr>chdirPath = [], dbPath = [], buildFilePath = [], traceFilePath = [],
            useSerialBuild = False, showVerboseStatus = False\<rparr>" 8
          "\<lparr>numErrors = 0, numFailedCommands = 0, printed = []\<rparr>"]
    createExecutionQueue_lanes
      [of "\<lparr>chdirPath = [], dbPath = [], buildFilePath = [], traceFilePath = [],
            useSerialBuild = False, showVerboseStatus = False\<rparr>" "- 1"
          "\<lparr>numErrors = 0, numFailedCommands = 0, printed = []\<rparr>"]
  by simp

section \<open>Properties of the makefile-deps parser\<close>

text \<open>
  C4. For every input buffer, a \<^verbatim>\<open>#\<close> begins a line comment: all bytes from the
  \<^verbatim>\<open>#\<close> to the end of that line are skipped and contribute no rule-start,
  dependency or error events. The source does otherwise. It skips only the
  \<^verbatim>\<open>#\<close> and the newlines that directly follow it (the inner loop tests
  \<^verbatim>\<open>cur[1] == '\n'\<close> under the comment ``Skip to the next newline''), and the text
  of the comment is parsed as a rule: here the rule \<open>note\<close> with its missing colon,
  before the rule of the next line.
\<close>

theorem parse_comment_line:
  "parse (''# note'' @ [CHR 0x0A] @ ''foo.o: foo.c'' @ [CHR 0x0A]) =
     ([ActOnRuleStart ''note'', ParseError ''missing ':' following rule'' 6, ActOnRuleEnd,
       ActOnRuleStart ''foo.o'', ActOnRuleDependency ''foo.c'', ActOnRuleEnd], None)"
  by code_simp

lemma parseDependencies_inside_rule:
  "parseDependencies n cur = (evs, r) \<Longrightarrow>
     wellFormed True (evs @ rest) = wellFormed True rest"
proof (induction n cur arbitrary: evs r rule: parseDependencies.induct)
  case (1 n cur)
  note run = "1.prems" [unfolded parseDependencies.simps [of n cur]]
  show ?case
  proof (cases "cur = []")
    case True
    with run show ?thesis by simp
  next
    case False
    define cur1 where "cur1 = skipNonNewlineWhitespace cur"
    show ?thesis
    proof (cases "cur1 = [] \<or> hd cur1 = CHR 0x0A")
      case True
      with False run show ?thesis
        by (simp add: cur1_def [symmetric] Let_def)
    next
      case stop: False
      show ?thesis
      proof (cases "lexWord cur1")
        case (Inl e)
        with False stop run show ?thesis
          by (simp add: cur1_def [symmetric] Let_def)
      next
        case (Inr cur2)
        show ?thesis
        proof (cases "length cur2 = length cur1")
          case True
          obtain es r' where rec: "parseDependencies n (skipToEndOfLine cur2) = (es, r')"
            by (cases "parseDependencies n (skipToEndOfLine cur2)")
          with False stop Inr True run
          have evs: "evs = ParseError ''unexpected character in prerequisites''
                             (n - length cur2) # es"
            by (simp add: cur1_def [symmetric] Let_def)
          have "wellFormed True (es @ rest) = wellFormed True rest"
            using "1.IH"(1) [OF False cur1_def stop Inr True rec] .
          with evs show ?thesis by simp
        next
          case neq: False
          obtain es r' where rec: "parseDependencies n cur2 = (es, r')"
            by (cases "parseDependencies n cur2")
          with False stop Inr neq run
          have evs: "evs = ActOnRuleDependency (take (length cur1 - length cur2) cur1) # es"
            by (simp add: cur1_def [symmetric] Let_def)
          have "wellFormed True (es @ rest) = wellFormed True rest"
            using "1.IH"(2) [OF False cur1_def stop Inr neq rec] .
          with evs show ?thesis by simp
        qed
      qed
    qed
  qed
qed

text \<open>
  Whenever the parser stays inside the buffer, the stream of calls is well-formed:
  every rule start is followed by its rule end before the next rule start and before
  the end of parsing, also on the path where the colon is missing, and every
  dependency lies between a rule start and its rule end.
\<close>

lemma parseRules_wellFormed:
  "parseRules n cur = (evs, None) \<Longrightarrow> wellFormed False evs"
proof (induction n cur arbitrary: evs rule: parseRules.induct)
  case (1 n cur)
  note run = "1.prems" [unfolded parseRules.simps [of n cur]]
  show ?case
  proof (cases "cur = []")
    case True
    with run show ?thesis by simp
  next
    case False
    define cur1 where "cur1 = skipWhitespaceAndComments cur"
    show ?thesis
    proof (cases "cur1 = []")
      case True
      with False run show ?thesis
        by (simp add: cur1_def [symmetric] Let_def)
    next
      case more: False
      show ?thesis
      proof (cases "lexWord cur1")
        case (Inl e)
        with False more run show ?thesis
          by (simp add: cur1_def [symmetric] Let_def)
      next
        case (Inr cur2)
        show ?thesis
        proof (cases "length cur2 = length cur1")
          case True
          obtain es r where rec: "parseRules n (skipToEndOfLine cur2) = (es, r)"
            by (cases "parseRules n (skipToEndOfLine cur2)")
          with False more Inr True run
          have evs: "evs = ParseError ''unexpected character in file'' (n - length cur2) # es"
            and r: "r = None"
            by (simp_all add: cur1_def [symmetric] Let_def)
          have "wellFormed False es"
            using "1.IH"(1) [OF False cur1_def more Inr True] rec r by simp
          with evs show ?thesis by simp
        next
          case word: False
          define cur3 where "cur3 = skipNonNewlineWhitespace cur2"
          show ?thesis
          proof (cases "cur3 = [] \<or> hd cur3 \<noteq> CHR '':''")
            case True
            obtain es r where rec: "parseRules n (skipToEndOfLine cur3) = (es, r)"
              by (cases "parseRules n (skipToEndOfLine cur3)")
            with False more Inr word True run
            have evs: "evs = ActOnRuleStart (take (length cur1 - length cur2) cur1) #
                ParseError ''missing ':' following rule'' (n - length cur3) #
                ActOnRuleEnd # es"
              and r: "r = None"
              by (simp_all add: cur1_def [symmetric] cur3_def [symmetric] Let_def)
            have "wellFormed False es"
              using "1.IH"(2) [OF False cur1_def more Inr word cur3_def True] rec r by simp
            with evs show ?thesis by simp
          next
            case colon: False
            obtain deps y where deps: "parseDependencies n (tl cur3) = (deps, y)"
              by (cases "parseDependencies n (tl cur3)")
            show ?thesis
            proof (cases y)
              case (Inl e)
              with False more Inr word colon deps run show ?thesis
                by (simp add: cur1_def [symmetric] cur3_def [symmetric] Let_def)
            next
              case y: (Inr cur4)
              obtain es r where rec: "parseRules n cur4 = (es, r)"
                by (cases "parseRules n cur4")
              with False more Inr word colon deps y run
              have evs: "evs = ActOnRuleStart (take (length cur1 - length cur2) cur1) #
                  deps @ ActOnRuleEnd # es"
                and r: "r = None"
                by (simp_all add: cur1_def [symmetric] cur3_def [symmetric] Let_def)
              have "wellFormed False es"
                using "1.IH"(3) [OF False cur1_def more Inr word cur3_def colon
                    deps [symmetric] y] rec r
                by simp
              then have "wellFormed True (deps @ ActOnRuleEnd # es)"
                using parseDependencies_inside_rule [OF deps, of "ActOnRuleEnd # es"] by simp
              with evs show ?thesis by simp
            qed
          qed
        qed
      qed
    qed
  qed
qed

lemma parse_wellFormed:
  "parse data = (evs, None) \<Longrightarrow> wellFormed False evs"
  unfolding parse_def by (rule parseRules_wellFormed)

subsection \<open>Where the parser leaves the buffer\<close>

text \<open>
  The parser reads outside the buffer only when the last byte of the buffer is a
  backslash; on every other buffer it runs to completion.
\<close>

lemma endsInBackslash_Nil: "\<not> endsInBackslash []"
  by (simp add: endsInBackslash_def)

lemma endsInBackslash_Cons: "endsInBackslash cs \<Longrightarrow> endsInBackslash (c # cs)"
  by (simp add: endsInBackslash_def)

lemma endsInBackslash_dropWhile:
  "endsInBackslash (dropWhile P cs) \<Longrightarrow> endsInBackslash cs"
proof (induction cs)
  case Nil
  then show ?case by simp
next
  case (Cons c cs)
  show ?case
  proof (cases "P c")
    case True
    with Cons have "endsInBackslash cs" by simp
    then show ?thesis by (rule endsInBackslash_Cons)
  next
    case False
    with Cons.prems show ?thesis by simp
  qed
qed

lemma endsInBackslash_skipWhitespaceAndComments:
  "endsInBackslash (skipWhitespaceAndComments cur) \<Longrightarrow> endsInBackslash cur"
proof (induction cur rule: skipWhitespaceAndComments.induct)
  case 1
  then show ?case by simp
next
  case (2 c rest)
  show ?case
  proof (cases "c = CHR ''#''")
    case True
    with 2(3) have "endsInBackslash (skipWhitespaceAndComments (dropWhile (\<lambda>d. d = CHR 0x0A) rest))"
      by simp
    from 2(1) [OF True this] have "endsInBackslash rest"
      by (rule endsInBackslash_dropWhile)
    then show ?thesis by (rule endsInBackslash_Cons)
  next
    case False
    show ?thesis
    proof (cases "c = CHR '' '' \<or> c = CHR 0x09 \<or> c = CHR 0x0A")
      case True
      with False 2(3) have "endsInBackslash (skipWhitespaceAndComments rest)" by simp
      from 2(2) [OF False True this] show ?thesis by (rule endsInBackslash_Cons)
    next
      case nows: False
      with False 2(3) show ?thesis by simp
    qed
  qed
qed

lemma endsInBackslash_skipNonNewlineWhitespace:
  "endsInBackslash (skipNonNewlineWhitespace cur) \<Longrightarrow> endsInBackslash cur"
proof (induction cur rule: skipNonNewlineWhitespace.induct)
  case 1
  then show ?case by simp
next
  case (2 c rest)
  show ?case
  proof (cases "c = CHR '' '' \<or> c = CHR 0x09")
    case True
    with 2(3) have "endsInBackslash (skipNonNewlineWhitespace rest)" by simp
    from 2(1) [OF True this] show ?thesis by (rule endsInBackslash_Cons)
  next
    case False
    show ?thesis
    proof (cases rest)
      case Nil
      with False 2(3) show ?thesis by simp
    next
      case (Cons d rest')
      show ?thesis
      proof (cases "c = CHR 0x5C \<and> d = CHR 0x0A")
        case True
        with False Cons 2(3) have "endsInBackslash (skipNonNewlineWhitespace rest')" by simp
        from 2(2) [OF False Cons True this] have "endsInBackslash rest'" .
        then show ?thesis unfolding Cons by (intro endsInBackslash_Cons)
      next
        case no: False
        then have "skipNonNewlineWhitespace (c # rest) = c # rest"
          using False Cons by auto
        with 2(3) show ?thesis by simp
      qed
    qed
  qed
qed

lemma endsInBackslash_skipToEndOfLine:
  "endsInBackslash (skipToEndOfLine cur) \<Longrightarrow> endsInBackslash cur"
proof (induction cur)
  case Nil
  then show ?case by simp
next
  case (Cons c cs)
  show ?case
  proof (cases "c = CHR 0x0A")
    case True
    with Cons.prems have "endsInBackslash cs" by simp
    then show ?thesis by (rule endsInBackslash_Cons)
  next
    case False
    with Cons have "endsInBackslash cs" by simp
    then show ?thesis by (rule endsInBackslash_Cons)
  qed
qed

lemma endsInBackslash_tl: "endsInBackslash (tl cur) \<Longrightarrow> endsInBackslash cur"
  by (cases cur) (simp_all add: endsInBackslash_def)

lemma lexWord_ends:
  "lexWord cur = r \<Longrightarrow>
     (case r of
        Inl e \<Rightarrow> e = OutOfBounds \<and> endsInBackslash cur
      | Inr cur' \<Rightarrow> endsInBackslash cur' \<longrightarrow> endsInBackslash cur)"
proof (induction cur arbitrary: r rule: lexWord.induct)
  case 1
  then show ?case by auto
next
  case (2 c rest)
  show ?case
  proof (cases "c = CHR 0x5C")
    case True
    show ?thesis
    proof (cases rest)
      case Nil
      with True 2(3) show ?thesis by (auto simp: endsInBackslash_def)
    next
      case (Cons d rest')
      show ?thesis
      proof (cases "d = CHR 0x0A")
        case nl: True
        with True Cons 2(3) show ?thesis by auto
      next
        case False
        with True Cons 2(3) have r: "lexWord rest' = r" by simp
        from 2(1) [OF True Cons False r] show ?thesis
          unfolding Cons by (auto split: sum.splits intro: endsInBackslash_Cons)
      qed
    qed
  next
    case False
    show ?thesis
    proof (cases "isWordChar c")
      case True
      with False 2(3) have r: "lexWord rest = r" by simp
      from 2(2) [OF False _ r] True show ?thesis
        by (auto split: sum.splits intro: endsInBackslash_Cons)
    next
      case no: False
      with False 2(3) show ?thesis by auto
    qed
  qed
qed

lemma lexWord_Inl: "lexWord cur = Inl e \<Longrightarrow> e = OutOfBounds \<and> endsInBackslash cur"
  using lexWord_ends [of cur "Inl e"] by simp

lemma lexWord_Inr: "lexWord cur = Inr cur' \<Longrightarrow> endsInBackslash cur' \<Longrightarrow> endsInBackslash cur"
  using lexWord_ends [of cur "Inr cur'"] by simp

lemma ends_lift:
  assumes "case r of
             Inl e \<Rightarrow> e = OutOfBounds \<and> endsInBackslash a
           | Inr c \<Rightarrow> endsInBackslash c \<longrightarrow> endsInBackslash a"
      and "endsInBackslash a \<Longrightarrow> endsInBackslash b"
  shows "case r of
           Inl e \<Rightarrow> e = OutOfBounds \<and> endsInBackslash b
         | Inr c \<Rightarrow> endsInBackslash c \<longrightarrow> endsInBackslash b"
  using assms by (cases r) simp_all

lemma parseDependencies_ends:
  "parseDependencies n cur = (evs, r) \<Longrightarrow>
     (case r of
        Inl e \<Rightarrow> e = OutOfBounds \<and> endsInBackslash cur
      | Inr cur' \<Rightarrow> endsInBackslash cur' \<longrightarrow> endsInBackslash cur)"
proof (induction n cur arbitrary: evs r rule: parseDependencies.induct)
  case (1 n cur)
  note run = "1.prems" [unfolded parseDependencies.simps [of n cur]]
  show ?case
  proof (cases "cur = []")
    case True
    with run have "r = Inr []" by simp
    then show ?thesis by (simp add: endsInBackslash_Nil)
  next
    case False
    define cur1 where "cur1 = skipNonNewlineWhitespace cur"
    have up1: "endsInBackslash cur" if "endsInBackslash cur1"
      using that unfolding cur1_def by (rule endsInBackslash_skipNonNewlineWhitespace)
    show ?thesis
    proof (cases "cur1 = [] \<or> hd cur1 = CHR 0x0A")
      case True
      with False run have "r = Inr cur1"
        by (simp add: cur1_def [symmetric] Let_def)
      with up1 show ?thesis by simp
    next
      case stop: False
      show ?thesis
      proof (cases "lexWord cur1")
        case (Inl e)
        with False stop run have "r = Inl e"
          by (simp add: cur1_def [symmetric] Let_def)
        with lexWord_Inl [OF Inl] up1 show ?thesis by simp
      next
        case (Inr cur2)
        have up2: "endsInBackslash cur" if "endsInBackslash cur2"
          using lexWord_Inr [OF Inr that] by (rule up1)
        show ?thesis
        proof (cases "length cur2 = length cur1")
          case True
          obtain es r' where rec: "parseDependencies n (skipToEndOfLine cur2) = (es, r')"
            by (cases "parseDependencies n (skipToEndOfLine cur2)")
          with False stop Inr True run have r: "r = r'"
            by (simp add: cur1_def [symmetric] Let_def)
          have "endsInBackslash cur" if "endsInBackslash (skipToEndOfLine cur2)"
            using that by (rule endsInBackslash_skipToEndOfLine [THEN up2])
          with "1.IH"(1) [OF False cur1_def stop Inr True rec]
          have "case r' of
                  Inl e \<Rightarrow> e = OutOfBounds \<and> endsInBackslash cur
                | Inr c \<Rightarrow> endsInBackslash c \<longrightarrow> endsInBackslash cur"
            by (rule ends_lift)
          with r show ?thesis by simp
        next
          case neq: False
          obtain es r' where rec: "parseDependencies n cur2 = (es, r')"
            by (cases "parseDependencies n cur2")
          with False stop Inr neq run have r: "r = r'"
            by (simp add: cur1_def [symmetric] Let_def)
          from "1.IH"(2) [OF False cur1_def stop Inr neq rec] up2
          have "case r' of
                  Inl e \<Rightarrow> e = OutOfBounds \<and> endsInBackslash cur
                | Inr c \<Rightarrow> endsInBackslash c \<longrightarrow> endsInBackslash cur"
            by (rule ends_lift)
          with r show ?thesis by simp
        qed
      qed
    qed
  qed
qed

lemma parseRules_ends:
  "parseRules n cur = (evs, Some e) \<Longrightarrow> e = OutOfBounds \<and> endsInBackslash cur"
proof (induction n cur arbitrary: evs rule: parseRules.induct)
  case (1 n cur)
  note run = "1.prems" [unfolded parseRules.simps [of n cur]]
  show ?case
  proof (cases "cur = []")
    case True
    with run show ?thesis by simp
  next
    case False
    define cur1 where "cur1 = skipWhitespaceAndComments cur"
    have up1: "endsInBackslash cur" if "endsInBackslash cur1"
      using that unfolding cur1_def by (rule endsInBackslash_skipWhitespaceAndComments)
    show ?thesis
    proof (cases "cur1 = []")
      case True
      with False run show ?thesis
        by (simp add: cur1_def [symmetric] Let_def)
    next
      case nonempty: False
      show ?thesis
      proof (cases "lexWord cur1")
        case (Inl e')
        with False nonempty run have "e = e'"
          by (simp add: cur1_def [symmetric] Let_def)
        with lexWord_Inl [OF Inl] up1 show ?thesis by simp
      next
        case (Inr cur2)
        have up2: "endsInBackslash cur" if "endsInBackslash cur2"
          using lexWord_Inr [OF Inr that] by (rule up1)
        show ?thesis
        proof (cases "length cur2 = length cur1")
          case True
          obtain es r where rec: "parseRules n (skipToEndOfLine cur2) = (es, r)"
            by (cases "parseRules n (skipToEndOfLine cur2)")
          with False nonempty Inr True run have r: "r = Some e"
            by (simp add: cur1_def [symmetric] Let_def)
          from "1.IH"(1) [OF False cur1_def nonempty Inr True] rec r
          have e: "e = OutOfBounds" and ends: "endsInBackslash (skipToEndOfLine cur2)"
            by simp_all
          from ends have "endsInBackslash cur2" by (rule endsInBackslash_skipToEndOfLine)
          with e up2 show ?thesis by simp
        next
          case word: False
          define cur3 where "cur3 = skipNonNewlineWhitespace cur2"
          have up3: "endsInBackslash cur" if "endsInBackslash cur3"
            using that unfolding cur3_def
            by (rule endsInBackslash_skipNonNewlineWhitespace [THEN up2])
          show ?thesis
          proof (cases "cur3 = [] \<or> hd cur3 \<noteq> CHR '':''")
            case True
            obtain es r where rec: "parseRules n (skipToEndOfLine cur3) = (es, r)"
              by (cases "parseRules n (skipToEndOfLine cur3)")
            with False nonempty Inr word True run have r: "r = Some e"
              by (simp add: cur1_def [symmetric] cur3_def [symmetric] Let_def)
            from "1.IH"(2) [OF False cur1_def nonempty Inr word cur3_def True] rec r
            have e: "e = OutOfBounds" and ends: "endsInBackslash (skipToEndOfLine cur3)"
              by simp_all
            from ends have "endsInBackslash cur3" by (rule endsInBackslash_skipToEndOfLine)
            with e up3 show ?thesis by simp
          next
            case colon: False
            obtain deps y where deps: "parseDependencies n (tl cur3) = (deps, y)"
              by (cases "parseDependencies n (tl cur3)")
            have up4: "endsInBackslash cur" if "endsInBackslash (tl cur3)"
              using that by (rule endsInBackslash_tl [THEN up3])
            show ?thesis
            proof (cases y)
              case (Inl e')
              with False nonempty Inr word colon deps run have "e = e'"
                by (simp add: cur1_def [symmetric] cur3_def [symmetric] Let_def)
              with parseDependencies_ends [OF deps] Inl up4 show ?thesis by simp
            next
              case y: (Inr cur4)
              obtain es r where rec: "parseRules n cur4 = (es, r)"
                by (cases "parseRules n cur4")
              with False nonempty Inr word colon deps y run have r: "r = Some e"
                by (simp add: cur1_def [symmetric] cur3_def [symmetric] Let_def)
              from "1.IH"(3) [OF False cur1_def nonempty Inr word cur3_def colon
                  deps [symmetric] y] rec r
              have "e = OutOfBounds" "endsInBackslash cur4" by simp_all
              with parseDependencies_ends [OF deps] y up4 show ?thesis by simp
            qed
          qed
        qed
      qed
    qed
  qed
qed

text \<open>
  On every buffer that does not end in a backslash the parser runs to completion, and
  its stream of calls is well-formed.
\<close>

lemma parse_completes:
  assumes "\<not> endsInBackslash data"
  shows "\<exists>evs. parse data = (evs, None) \<and> wellFormed False evs"
proof -
  obtain evs r where p: "parse data = (evs, r)" by (cases "parse data")
  have "r = None"
  proof (cases r)
    case None
    then show ?thesis .
  next
    case (Some e)
    with p have "parseRules (length data) data = (evs, Some e)" by (simp add: parse_def)
    from parseRules_ends [OF this] assms show ?thesis by simp
  qed
  with p parse_wellFormed [of data evs] show ?thesis by simp
qed

text \<open>
  C10. For every input buffer the stream of calls is well-formed: every
  \<^verbatim>\<open>actOnRuleStart\<close> is followed by exactly one \<^verbatim>\<open>actOnRuleEnd\<close> before any
  later \<^verbatim>\<open>actOnRuleStart\<close> or the end of parsing, and every
  \<^verbatim>\<open>actOnRuleDependency\<close> lies between the two. The lemma above has this for every
  buffer that does not end in a backslash. It fails on a buffer whose last byte is a
  backslash inside a dependency word: \<^verbatim>\<open>lexWord\<close> steps past the end of the buffer after the
  rule has started, so the rule start has been emitted and no rule end follows it
  within the defined behaviour of the parser.
\<close>

theorem parse_trailing_backslash:
  "parse (''a: b'' @ [CHR 0x5C]) = ([ActOnRuleStart ''a''], Some OutOfBounds) \<and>
   \<not> wellFormed False (fst (parse (''a: b'' @ [CHR 0x5C])))"
  by code_simp


section \<open>Properties of the build-description loader\<close>

lemma nodeIsScalarString_iff: "nodeIsScalarString k name \<longleftrightarrow> k = Scalar name"
  by (cases k) (auto simp: nodeIsScalarString_def)

lemma remaining_Nil [simp]: "remaining names [] = []"
  by (cases names) simp_all

lemma inFixedOrder_no_names [simp]: "inFixedOrder [] ks \<longleftrightarrow> ks = []"
  by (cases ks) simp_all

lemma parseSection_Some:
  assumes "parseSection name parser it st = (Some it', st')"
  shows "remaining (name # names) it = remaining names it'"
    and "inFixedOrder (name # names) (map fst it) = inFixedOrder names (map fst it')"
  using assms
  by (auto simp: parseSection_def nodeIsScalarString_iff
      split: list.splits if_splits yaml.splits prod.splits)

lemma remaining_inFixedOrder:
  "inFixedOrder names (map fst it) \<longleftrightarrow> remaining names it = []"
  by (induction names it rule: remaining.induct) auto

lemma parseSection_accepts:
  assumes "acceptsSection name parser it"
  shows "\<exists>it' st'. parseSection name parser it st = (Some it', st') \<and> set it' \<subseteq> set it"
proof (cases it)
  case Nil
  then show ?thesis by (simp add: parseSection_def)
next
  case (Cons kv rest)
  obtain k v where kv: "kv = (k, v)" by (cases kv)
  show ?thesis
  proof (cases "k = Scalar name")
    case True
    with assms Cons kv obtain entries
      where v: "v = Mapping entries" and ok: "fst (parser entries st)"
      unfolding acceptsSection_def by auto
    obtain b s' where p: "parser entries st = (b, s')" by (cases "parser entries st")
    with ok have b by simp
    with Cons kv True v p show ?thesis
      by (auto simp: parseSection_def nodeIsScalarString_iff)
  next
    case False
    with Cons kv show ?thesis
      by (simp add: parseSection_def nodeIsScalarString_iff)
  qed
qed

lemma acceptsSection_subset:
  assumes "acceptsSection name parser it" and "set it' \<subseteq> set it"
  shows "acceptsSection name parser it'"
  using assms unfolding acceptsSection_def by blast

lemma parseRootNode_accepts:
  assumes run: "parseRootNode P node st = Inr (True, st')"
  shows "\<exists>v it. node = Mapping ((Scalar ''client'', v) # it) \<and>
           inFixedOrder optionalSections (map fst it)"
proof -
  from run obtain val it1 st1 it2 st2 it3 st3 it4 st4 st5
    where node: "node = Mapping ((Scalar ''client'', val) # it1)"
      and s2: "parseSection ''tools'' (parseToolsMapping P) it1 st1 = (Some it2, st2)"
      and s3: "parseSection ''targets'' (parseTargetsMapping P) it2 st2 = (Some it3, st3)"
      and s4: "parseSection ''nodes'' (parseNodesMapping P) it3 st3 = (Some it4, st4)"
      and s5: "parseSection ''commands'' (parseCommandsMapping P) it4 st4 = (Some [], st5)"
    unfolding parseRootNode_def nodeIsScalarString_iff
    by (auto split: yaml.splits list.splits prod.splits option.splits if_splits)
  have "inFixedOrder optionalSections (map fst it1)"
    unfolding optionalSections_def
    by (simp only: parseSection_Some(2) [OF s2] parseSection_Some(2) [OF s3]
        parseSection_Some(2) [OF s4] parseSection_Some(2) [OF s5])
       simp
  with node show ?thesis by blast
qed

lemma parseRootNode_first_key:
  assumes "k \<noteq> Scalar ''client''"
  shows "parseRootNode P (Mapping ((k, v) # it)) st =
           Inr (False, error_at k (''expected initial mapping key '' @ [CHR 0x27] @ ''client'' @
                                   [CHR 0x27]) st)"
  using assms by (simp add: parseRootNode_def nodeIsScalarString_iff)

lemma parseRootNode_returns:
  "\<exists>b s. parseRootNode P (Mapping (e # it)) st = Inr (b, s)"
  unfolding parseRootNode_def
  by (auto split: yaml.splits list.splits prod.splits option.splits if_splits)

lemma parseRootNode_trailing_fails:
  assumes "remaining optionalSections it \<noteq> []"
  shows "\<exists>s. parseRootNode P (Mapping ((Scalar ''client'', v) # it)) st = Inr (False, s)"
proof -
  obtain b s where r: "parseRootNode P (Mapping ((Scalar ''client'', v) # it)) st = Inr (b, s)"
    using parseRootNode_returns by blast
  have "\<not> b"
  proof
    assume b
    with r have "parseRootNode P (Mapping ((Scalar ''client'', v) # it)) st = Inr (True, s)"
      by simp
    from parseRootNode_accepts [OF this]
    have "inFixedOrder optionalSections (map fst it)" by simp
    with assms show False by (simp add: remaining_inFixedOrder)
  qed
  with r show ?thesis by auto
qed

text \<open>
  The outcome when the client section and every section of the four optional names is
  one its parser accepts: the parse succeeds when nothing is left after the fixed
  sequence, and otherwise fails with the error reported at the first entry left over.
\<close>

lemma parseRootNode_sections_accepted:
  assumes client: "fst (parseClientMapping P client st)"
      and tools: "acceptsSection ''tools'' (parseToolsMapping P) it"
      and targets: "acceptsSection ''targets'' (parseTargetsMapping P) it"
      and nodes: "acceptsSection ''nodes'' (parseNodesMapping P) it"
      and commands: "acceptsSection ''commands'' (parseCommandsMapping P) it"
  shows "\<exists>s. parseRootNode P (Mapping ((Scalar ''client'', Mapping client) # it)) st =
           (case remaining optionalSections it of
              [] \<Rightarrow> Inr (True, s)
            | (k', v') # others \<Rightarrow>
                Inr (False,
                     error_at (KeyValue k' v') ''unexpected trailing top-level section'' s))"
proof -
  obtain ok st1 where c: "parseClientMapping P client st = (ok, st1)"
    by (cases "parseClientMapping P client st")
  with client have ok: ok by simp
  from parseSection_accepts [OF tools, of st1]
  obtain it2 st2
    where s2: "parseSection ''tools'' (parseToolsMapping P) it st1 = (Some it2, st2)"
      and sub2: "set it2 \<subseteq> set it"
    by blast
  from parseSection_accepts [OF acceptsSection_subset [OF targets sub2], of st2]
  obtain it3 st3
    where s3: "parseSection ''targets'' (parseTargetsMapping P) it2 st2 = (Some it3, st3)"
      and sub3: "set it3 \<subseteq> set it2"
    by blast
  from sub2 sub3 have sub3': "set it3 \<subseteq> set it" by blast
  from parseSection_accepts [OF acceptsSection_subset [OF nodes sub3'], of st3]
  obtain it4 st4
    where s4: "parseSection ''nodes'' (parseNodesMapping P) it3 st3 = (Some it4, st4)"
      and sub4: "set it4 \<subseteq> set it3"
    by blast
  from sub3' sub4 have sub4': "set it4 \<subseteq> set it" by blast
  from parseSection_accepts [OF acceptsSection_subset [OF commands sub4'], of st4]
  obtain it5 st5
    where s5: "parseSection ''commands'' (parseCommandsMapping P) it4 st4 = (Some it5, st5)"
    by blast
  have left: "remaining optionalSections it = it5"
    unfolding optionalSections_def
    by (simp only: parseSection_Some(1) [OF s2] parseSection_Some(1) [OF s3]
        parseSection_Some(1) [OF s4] parseSection_Some(1) [OF s5] remaining.simps)
  have "parseRootNode P (Mapping ((Scalar ''client'', Mapping client) # it)) st =
          (case it5 of
             [] \<Rightarrow> Inr (True, st5)
           | (k', v') # others \<Rightarrow>
               Inr (False,
                    error_at (KeyValue k' v') ''unexpected trailing top-level section'' st5))"
    by (simp add: parseRootNode_def nodeIsScalarString_iff c ok s2 s3 s4 s5
        split: list.splits)
  with left show ?thesis by blast
qed

text \<open>
  Each section but \<open>client\<close> is optional: a document with \<open>client\<close> first and any of
  the four other sections after it, in the fixed order, is accepted when each of its
  sections is.
\<close>

lemma parseRootNode_optional:
  assumes client: "fst (parseClientMapping P client st)"
      and tools: "acceptsSection ''tools'' (parseToolsMapping P) it"
      and targets: "acceptsSection ''targets'' (parseTargetsMapping P) it"
      and nodes: "acceptsSection ''nodes'' (parseNodesMapping P) it"
      and commands: "acceptsSection ''commands'' (parseCommandsMapping P) it"
      and order: "inFixedOrder optionalSections (map fst it)"
  shows "\<exists>s. parseRootNode P (Mapping ((Scalar ''client'', Mapping client) # it)) st =
           Inr (True, s)"
proof -
  from order have "remaining optionalSections it = []"
    by (simp add: remaining_inFixedOrder)
  with parseRootNode_sections_accepted [OF client tools targets nodes commands]
  show ?thesis by simp
qed

lemma parseRootNode_client_only:
  assumes "fst (parseClientMapping P client st)"
  shows "\<exists>s. parseRootNode P (Mapping [(Scalar ''client'', Mapping client)]) st = Inr (True, s)"
  using parseRootNode_optional [OF assms, of "[]"]
  by (simp add: acceptsSection_def)

text \<open>
  Every parse of the root node that fails has reported an error, for section parsers
  that report what they reject.
\<close>

lemma parseSection_reports:
  assumes contract: "reportsRejection parser"
      and run: "parseSection name parser it st = (r, st')"
  shows "length (reported st) \<le> length (reported st') \<and>
         (r = None \<longrightarrow> length (reported st) < length (reported st'))"
proof (cases it)
  case Nil
  with run show ?thesis by (auto simp: parseSection_def)
next
  case (Cons kv rest)
  obtain k v where kv: "kv = (k, v)" by (cases kv)
  show ?thesis
  proof (cases "k = Scalar name")
    case False
    with run Cons kv show ?thesis
      by (auto simp: parseSection_def nodeIsScalarString_iff)
  next
    case True
    show ?thesis
    proof (cases "\<exists>entries. v = Mapping entries")
      case False
      with run Cons kv True have "r = None"
        and "st' = error_at v (''unexpected '' @ [CHR 0x27] @ name @ [CHR 0x27] @
                               '' value (expected map)'') st"
        by (cases v; simp add: parseSection_def nodeIsScalarString_iff)+
      then show ?thesis by (simp add: error_at_def)
    next
      case mapping: True
      then obtain entries where v: "v = Mapping entries" by blast
      obtain b s' where p: "parser entries st = (b, s')" by (cases "parser entries st")
      from contract [unfolded reportsRejection_def, rule_format, of st entries] p
      have grow: "length (reported st) \<le> length (reported s')"
        "\<not> b \<Longrightarrow> length (reported st) < length (reported s')"
        by simp_all
      from run Cons kv True v p have "st' = s'" "r = None \<longleftrightarrow> \<not> b"
        by (auto simp: parseSection_def nodeIsScalarString_iff split: if_splits)
      with grow show ?thesis by auto
    qed
  qed
qed

lemma parseRootNode_failure_reported:
  assumes client: "reportsRejection (parseClientMapping P)"
      and tools: "reportsRejection (parseToolsMapping P)"
      and targets: "reportsRejection (parseTargetsMapping P)"
      and nodes: "reportsRejection (parseNodesMapping P)"
      and commands: "reportsRejection (parseCommandsMapping P)"
      and run: "parseRootNode P node st = Inr (False, s)"
  shows "length (reported st) < length (reported s)"
proof (cases "\<exists>client it. node = Mapping ((Scalar ''client'', Mapping client) # it)")
  case False
  with run show ?thesis
    by (auto simp: parseRootNode_def nodeIsScalarString_iff error_at_def
        split: yaml.splits list.splits if_splits)
next
  case True
  then obtain entries it where node: "node = Mapping ((Scalar ''client'', Mapping entries) # it)"
    by blast
  obtain ok st1 where c: "parseClientMapping P entries st = (ok, st1)"
    by (cases "parseClientMapping P entries st")
  from client [unfolded reportsRejection_def, rule_format, of st entries] c
  have g1: "length (reported st) \<le> length (reported st1)"
    "\<not> ok \<Longrightarrow> length (reported st) < length (reported st1)"
    by simp_all
  show ?thesis
  proof (cases ok)
    case False
    with run node c have "s = st1" by (simp add: parseRootNode_def nodeIsScalarString_iff)
    with g1 False show ?thesis by simp
  next
    case ok: True
    obtain r2 st2 where s2: "parseSection ''tools'' (parseToolsMapping P) it st1 = (r2, st2)"
      by (cases "parseSection ''tools'' (parseToolsMapping P) it st1")
    note g2 = parseSection_reports [OF tools s2]
    show ?thesis
    proof (cases r2)
      case None
      with run node c ok s2 have "s = st2"
        by (simp add: parseRootNode_def nodeIsScalarString_iff)
      with g1 g2 None show ?thesis by simp
    next
      case (Some it2)
      obtain r3 st3
        where s3: "parseSection ''targets'' (parseTargetsMapping P) it2 st2 = (r3, st3)"
        by (cases "parseSection ''targets'' (parseTargetsMapping P) it2 st2")
      note g3 = parseSection_reports [OF targets s3]
      show ?thesis
      proof (cases r3)
        case None
        with run node c ok s2 Some s3 have "s = st3"
          by (simp add: parseRootNode_def nodeIsScalarString_iff)
        with g1 g2 g3 None show ?thesis by simp
      next
        case it3: (Some it3)
        obtain r4 st4
          where s4: "parseSection ''nodes'' (parseNodesMapping P) it3 st3 = (r4, st4)"
          by (cases "parseSection ''nodes'' (parseNodesMapping P) it3 st3")
        note g4 = parseSection_reports [OF nodes s4]
        show ?thesis
        proof (cases r4)
          case None
          with run node c ok s2 Some s3 it3 s4 have "s = st4"
            by (simp add: parseRootNode_def nodeIsScalarString_iff)
          with g1 g2 g3 g4 None show ?thesis by simp
        next
          case it4: (Some it4)
          obtain r5 st5
            where s5: "parseSection ''commands'' (parseCommandsMapping P) it4 st4 = (r5, st5)"
            by (cases "parseSection ''commands'' (parseCommandsMapping P) it4 st4")
          note g5 = parseSection_reports [OF commands s5]
          show ?thesis
          proof (cases r5)
            case None
            with run node c ok s2 Some s3 it3 s4 it4 s5 have "s = st5"
              by (simp add: parseRootNode_def nodeIsScalarString_iff)
            with g1 g2 g3 g4 g5 None show ?thesis by simp
          next
            case it5: (Some it5)
            with run node c ok s2 Some s3 it3 s4 it4 s5
            obtain k v others where "it5 = (k, v) # others"
              and "s = error_at (KeyValue k v) ''unexpected trailing top-level section'' st5"
              by (cases it5) (auto simp: parseRootNode_def nodeIsScalarString_iff)
            with g1 g2 g3 g4 g5 show ?thesis by (simp add: error_at_def)
          qed
        qed
      qed
    qed
  qed
qed

text \<open>
  A document with a section left after the fixed sequence is consumed, an unknown name
  or a known one out of order: the parse of the root node fails and an error has been
  reported.
\<close>

lemma parseRootNode_trailing_reported:
  assumes client: "reportsRejection (parseClientMapping P)"
      and tools: "reportsRejection (parseToolsMapping P)"
      and targets: "reportsRejection (parseTargetsMapping P)"
      and nodes: "reportsRejection (parseNodesMapping P)"
      and commands: "reportsRejection (parseCommandsMapping P)"
      and left: "remaining optionalSections it \<noteq> []"
  shows "\<exists>s. parseRootNode P (Mapping ((Scalar ''client'', v) # it)) st = Inr (False, s) \<and>
           length (reported st) < length (reported s)"
proof -
  from parseRootNode_trailing_fails [OF left]
  obtain s where run: "parseRootNode P (Mapping ((Scalar ''client'', v) # it)) st = Inr (False, s)"
    by blast
  from parseRootNode_failure_reported [OF client tools targets nodes commands run] run
  show ?thesis by blast
qed

text \<open>
  The lemmas at work on section parsers that accept an empty section and reject, with a
  report, every other: a document of the sections client and nodes is accepted, and one
  with an unknown section after a rejected tools section fails with an error reported.
\<close>

lemma parseRootNode_optional_instance:
  "\<exists>s. parseRootNode
     \<lparr>parseClientMapping = (\<lambda>entries s. (entries = [], error_at Null ''invalid'' s)),
      parseToolsMapping = (\<lambda>entries s. (entries = [], error_at Null ''invalid'' s)),
      parseTargetsMapping = (\<lambda>entries s. (entries = [], error_at Null ''invalid'' s)),
      parseNodesMapping = (\<lambda>entries s. (entries = [], error_at Null ''invalid'' s)),
      parseCommandsMapping = (\<lambda>entries s. (entries = [], error_at Null ''invalid'' s))\<rparr>
     (Mapping [(Scalar ''client'', Mapping []), (Scalar ''nodes'', Mapping [])])
     \<lparr>loadErrors = 0, reported = [], loaded = ()\<rparr> = Inr (True, s)"
  by (rule parseRootNode_optional) (simp_all add: acceptsSection_def optionalSections_def)

lemma parseRootNode_trailing_reported_instance:
  "\<exists>s. parseRootNode
     \<lparr>parseClientMapping = (\<lambda>entries s. (entries = [], error_at Null ''invalid'' s)),
      parseToolsMapping = (\<lambda>entries s. (entries = [], error_at Null ''invalid'' s)),
      parseTargetsMapping = (\<lambda>entries s. (entries = [], error_at Null ''invalid'' s)),
      parseNodesMapping = (\<lambda>entries s. (entries = [], error_at Null ''invalid'' s)),
      parseCommandsMapping = (\<lambda>entries s. (entries = [], error_at Null ''invalid'' s))\<rparr>
     (Mapping [(Scalar ''client'', Mapping []),
               (Scalar ''tools'', Mapping [(Scalar ''cc'', Null)]),
               (Scalar ''extras'', Mapping [])])
     \<lparr>loadErrors = 0, reported = [], loaded = ()\<rparr> = Inr (False, s) \<and>
     length (reported \<lparr>loadErrors = 0, reported = [], loaded = ()\<rparr>) < length (reported s)"
  by (rule parseRootNode_trailing_reported)
     (simp_all add: reportsRejection_def error_at_def optionalSections_def)

text \<open>
  C5. For every build-description document, the loader accepts top-level sections only
  in the fixed order client, tools, targets, nodes, commands, with client required as
  the first key and every other section optional; a document whose first key is not
  client, or that has a section left after this sequence is consumed, is reported as an
  error and the parse of the root node fails. The lemmas above have this for every root
  mapping with an entry. On a root mapping with no entry (the document \<^verbatim>\<open>{}\<close>), which
  lacks the required client section, \<^verbatim>\<open>parseRootNode\<close> evaluates \<^verbatim>\<open>it->getKey()\<close> on
  \<^verbatim>\<open>mapping->begin()\<close> with no test against \<^verbatim>\<open>mapping->end()\<close>: a read past the
  collection, with no error reported and no result. A root mapping whose one entry is
  not client is reported and fails; the four blocks that follow in \<^verbatim>\<open>parseRootNode\<close>
  test \<^verbatim>\<open>it != mapping->end()\<close> first, and \<^verbatim>\<open>parseCommandsMapping\<close> reports a command
  whose mapping is empty.
\<close>

theorem parseRootNode_empty_mapping:
  "parseRootNode P (Mapping []) st = Inl OutOfBounds \<and>
   parseRootNode P (Mapping [(Scalar ''tools'', Mapping [])]) st =
     Inr (False,
          error_at (Scalar ''tools'')
            (''expected initial mapping key '' @ [CHR 0x27] @ ''client'' @ [CHR 0x27]) st)"
  by (simp add: parseRootNode_def nodeIsScalarString_def)


section \<open>Properties of the build engine\<close>

subsection \<open>What every call of the engine preserves\<close>

lemma frame_refl: "consistent s \<Longrightarrow> frame X s s"
  by (simp add: frame_def)

lemma frame_mono: "frame X s s' \<Longrightarrow> X \<subseteq> Y \<Longrightarrow> frame Y s s'"
  unfolding frame_def by blast

lemma declaredIn_kept:
  assumes "declaredIn s k d"
      and "\<forall>k \<in> set (completeKeys s). k \<in> set (completeKeys s') \<and> results s' k = results s k"
  shows "declaredIn s' k d"
  using assms unfolding declaredIn_def by metis

lemma discoveredIn_kept:
  assumes "discoveredIn s k d"
      and "\<forall>k \<in> set (completeKeys s). k \<in> set (completeKeys s') \<and> results s' k = results s k"
  shows "discoveredIn s' k d"
  using assms unfolding discoveredIn_def by metis

lemma frame_trans:
  assumes 1: "frame X s s1" and 2: "frame Y s1 s2"
  shows "frame (X \<union> Y) s s2"
proof -
  from 1 obtain new1 disc1
    where k1: "\<forall>k \<in> set (completeKeys s). k \<in> set (completeKeys s1) \<and> results s1 k = results s k"
      and sc1: "\<forall>k \<in> set (scanningKeys s). k \<notin> X \<longrightarrow> k \<in> set (scanningKeys s1)"
      and d1: "deliveries s1 = deliveries s @ new1" "\<forall>(k, d, i) \<in> set new1. declaredIn s1 k d"
      and r1: "discoveries s1 = discoveries s @ disc1" "\<forall>(k, d) \<in> set disc1. discoveredIn s1 k d"
    unfolding frame_def by blast
  from 2 obtain new2 disc2
    where c2: "consistent s2"
      and k2: "\<forall>k \<in> set (completeKeys s1). k \<in> set (completeKeys s2) \<and> results s2 k = results s1 k"
      and sc2: "\<forall>k \<in> set (scanningKeys s1). k \<notin> Y \<longrightarrow> k \<in> set (scanningKeys s2)"
      and d2: "deliveries s2 = deliveries s1 @ new2" "\<forall>(k, d, i) \<in> set new2. declaredIn s2 k d"
      and r2: "discoveries s2 = discoveries s1 @ disc2" "\<forall>(k, d) \<in> set disc2. discoveredIn s2 k d"
    unfolding frame_def by blast
  have keep: "\<forall>k \<in> set (completeKeys s). k \<in> set (completeKeys s2) \<and> results s2 k = results s k"
    using k1 k2 by fastforce
  have scan: "\<forall>k \<in> set (scanningKeys s). k \<notin> X \<union> Y \<longrightarrow> k \<in> set (scanningKeys s2)"
    using sc1 sc2 by blast
  have "\<forall>(k, d, i) \<in> set new1. declaredIn s2 k d"
    using d1(2) k2 by (auto intro: declaredIn_kept)
  with d2(2) have dl: "\<forall>(k, d, i) \<in> set (new1 @ new2). declaredIn s2 k d"
    by auto
  have "\<forall>(k, d) \<in> set disc1. discoveredIn s2 k d"
    using r1(2) k2 by (auto intro: discoveredIn_kept)
  with r2(2) have ds: "\<forall>(k, d) \<in> set (disc1 @ disc2). discoveredIn s2 k d"
    by auto
  have "deliveries s2 = deliveries s @ (new1 @ new2)"
    using d1(1) d2(1) by simp
  moreover have "discoveries s2 = discoveries s @ (disc1 @ disc2)"
    using r1(1) r2(1) by simp
  ultimately show ?thesis
    unfolding frame_def using c2 keep scan dl ds by blast
qed

lemma frame_builtKeys [simp]: "frame X (s\<lparr>builtKeys := b\<rparr>) s' = frame X s s'"
  by (simp add: frame_def)

lemma consistent_builtKeys [simp]: "consistent (s\<lparr>builtKeys := b\<rparr>) = consistent s"
  by (simp add: consistent_def)

lemma consistent_deliveries [simp]: "consistent (s\<lparr>deliveries := b\<rparr>) = consistent s"
  by (simp add: consistent_def)

lemma consistent_discoveries [simp]: "consistent (s\<lparr>discoveries := b\<rparr>) = consistent s"
  by (simp add: consistent_def)

lemma frame_delivery:
  assumes "frame X (s\<lparr>deliveries := deliveries s @ [(k, d, i)]\<rparr>) s'"
      and "declaredIn s' k d"
  shows "frame X s s'"
proof -
  from assms(1) obtain new
    where "deliveries s' = (deliveries s @ [(k, d, i)]) @ new"
      and "\<forall>(k, d, i) \<in> set new. declaredIn s' k d"
    unfolding frame_def by auto
  with assms(2) have "deliveries s' = deliveries s @ ((k, d, i) # new) \<and>
      (\<forall>(k, d, i) \<in> set ((k, d, i) # new). declaredIn s' k d)"
    by simp
  then have "\<exists>new. deliveries s' = deliveries s @ new \<and>
      (\<forall>(k, d, i) \<in> set new. declaredIn s' k d)" ..
  with assms(1) show ?thesis
    unfolding frame_def by simp
qed

lemma frame_discovery:
  assumes "frame X (s\<lparr>discoveries := discoveries s @ [(k, d)]\<rparr>) s'"
      and "discoveredIn s' k d"
  shows "frame X s s'"
proof -
  from assms(1) obtain new
    where "discoveries s' = (discoveries s @ [(k, d)]) @ new"
      and "\<forall>(k, d) \<in> set new. discoveredIn s' k d"
    unfolding frame_def by auto
  with assms(2) have "discoveries s' = discoveries s @ ((k, d) # new) \<and>
      (\<forall>(k, d) \<in> set ((k, d) # new). discoveredIn s' k d)"
    by simp
  then have "\<exists>new. discoveries s' = discoveries s @ new \<and>
      (\<forall>(k, d) \<in> set new. discoveredIn s' k d)" ..
  with assms(1) show ?thesis
    unfolding frame_def by simp
qed

lemma frame_push:
  assumes "frame {k} (s\<lparr>scanningKeys := k # scanningKeys s\<rparr>) s'"
      and "k \<notin> set (scanningKeys s)"
  shows "frame {} s s'"
  using assms unfolding frame_def by auto

lemma consistent_push:
  "consistent s \<Longrightarrow> k \<notin> set (completeKeys s) \<Longrightarrow>
     consistent (s\<lparr>scanningKeys := k # scanningKeys s\<rparr>)"
  by (auto simp: consistent_def)

lemma frame_completeTask:
  assumes "consistent s" and "k \<notin> set (completeKeys s)"
  shows "frame {k} s (completeTask k v declared discovered s)"
  using assms by (auto simp: frame_def consistent_def completeTask_def)

lemma frame_markChecked:
  assumes "consistent s" and "k \<notin> set (completeKeys s)"
  shows "frame {k} s (markChecked k prior s)"
  using assms by (auto simp: frame_def consistent_def markChecked_def)


lemma frame_consistent: "frame X s s' \<Longrightarrow> consistent s'"
  by (simp add: frame_def)

lemma frame_scanning:
  "frame X s s' \<Longrightarrow> k \<in> set (scanningKeys s) \<Longrightarrow> k \<notin> X \<Longrightarrow> k \<in> set (scanningKeys s')"
  by (simp add: frame_def)

lemma frame_complete:
  "frame X s s' \<Longrightarrow> k \<in> set (completeKeys s) \<Longrightarrow> k \<in> set (completeKeys s')"
  by (simp add: frame_def)

lemma frame_declaredIn: "frame X s s' \<Longrightarrow> declaredIn s k d \<Longrightarrow> declaredIn s' k d"
  unfolding frame_def by (blast intro: declaredIn_kept)

lemma frame_discoveredIn: "frame X s s' \<Longrightarrow> discoveredIn s k d \<Longrightarrow> discoveredIn s' k d"
  unfolding frame_def by (blast intro: discoveredIn_kept)

lemma scanning_not_complete:
  "consistent s \<Longrightarrow> k \<in> set (scanningKeys s) \<Longrightarrow> k \<notin> set (completeKeys s)"
  by (auto simp: consistent_def)

lemma resolveAll_step:
  fixes R :: "KeyType \<Rightarrow> ('v, 'ts) Rule option"
  assumes res: "\<And>(R :: KeyType \<Rightarrow> ('v, 'ts) Rule option) k s s'.
            consistent s \<Longrightarrow> resolve n R k s = Inr s' \<Longrightarrow>
              frame {} s s' \<and> k \<in> set (completeKeys s')"
      and all: "\<And>(R :: KeyType \<Rightarrow> ('v, 'ts) Rule option) ds s s'.
            consistent s \<Longrightarrow> resolveAll n R ds s = Inr s' \<Longrightarrow> frame {} s s'"
      and s: "consistent s"
      and run: "resolveAll (Suc n) R ds s = Inr s'"
  shows "frame {} s s'"
proof (cases ds)
  case Nil
  with run s show ?thesis by (simp add: resolveAll.simps frame_refl)
next
  case (Cons d ds')
  from run Cons obtain s1 where r: "resolve n R d s = Inr s1"
    by (cases "resolve n R d s") (simp_all add: resolveAll.simps)
  from run Cons r have rest: "resolveAll n R ds' s1 = Inr s'"
    by (simp add: resolveAll.simps)
  from res [OF s r] have f1: "frame {} s s1" by simp
  from all [OF frame_consistent [OF f1] rest] have "frame {} s1 s'" .
  with f1 show ?thesis using frame_trans by fastforce
qed

lemma scanDependencies_step:
  fixes R :: "KeyType \<Rightarrow> ('v, 'ts) Rule option"
  assumes res: "\<And>(R :: KeyType \<Rightarrow> ('v, 'ts) Rule option) k s s'.
            consistent s \<Longrightarrow> resolve n R k s = Inr s' \<Longrightarrow>
              frame {} s s' \<and> k \<in> set (completeKeys s')"
      and scan: "\<And>(R :: KeyType \<Rightarrow> ('v, 'ts) Rule option) built ds s dirty s'.
            consistent s \<Longrightarrow> scanDependencies n R built ds s = Inr (dirty, s') \<Longrightarrow>
              frame {} s s'"
      and s: "consistent s"
      and run: "scanDependencies (Suc n) R built ds s = Inr (dirty, s')"
  shows "frame {} s s'"
proof (cases ds)
  case Nil
  with run s show ?thesis by (simp add: scanDependencies.simps frame_refl)
next
  case (Cons d ds')
  from run Cons obtain s1 where r: "resolve n R d s = Inr s1"
    by (cases "resolve n R d s") (simp_all add: scanDependencies.simps)
  from run Cons r obtain rd where rd: "results s1 d = Some rd"
    by (cases "results s1 d") (simp_all add: scanDependencies.simps)
  from run Cons r rd
  have rest: "(if builtAt rd > built then Inr (True, s1)
               else scanDependencies n R built ds' s1) = Inr (dirty, s')"
    by (simp add: scanDependencies.simps)
  from res [OF s r] have f1: "frame {} s s1" by simp
  show ?thesis
  proof (cases "builtAt rd > built")
    case True
    with rest f1 show ?thesis by simp
  next
    case False
    with rest have "scanDependencies n R built ds' s1 = Inr (dirty, s')" by simp
    from scan [OF frame_consistent [OF f1] this] have "frame {} s1 s'" .
    with f1 show ?thesis using frame_trans by fastforce
  qed
qed

lemma runTask_step:
  fixes R :: "KeyType \<Rightarrow> ('v, 'ts) Rule option"
  assumes res: "\<And>(R :: KeyType \<Rightarrow> ('v, 'ts) Rule option) k s s'.
            consistent s \<Longrightarrow> resolve n R k s = Inr s' \<Longrightarrow>
              frame {} s s' \<and> k \<in> set (completeKeys s')"
      and task: "\<And>(R :: KeyType \<Rightarrow> ('v, 'ts) Rule option) k r ts acts waiting declared
                discovered s s'.
            consistent s \<Longrightarrow> k \<in> set (scanningKeys s) \<Longrightarrow>
            runTask n R k r ts acts waiting declared discovered s = Inr s' \<Longrightarrow>
              frame {k} s s' \<and> k \<in> set (completeKeys s') \<and>
              (\<forall>d \<in> set declared. declaredIn s' k d) \<and>
              (\<forall>d \<in> set discovered. discoveredIn s' k d)"
      and all: "\<And>(R :: KeyType \<Rightarrow> ('v, 'ts) Rule option) ds s s'.
            consistent s \<Longrightarrow> resolveAll n R ds s = Inr s' \<Longrightarrow> frame {} s s'"
      and s: "consistent s"
      and k: "k \<in> set (scanningKeys s)"
      and run: "runTask (Suc n) R k r ts acts waiting declared discovered s = Inr s'"
  shows "frame {k} s s' \<and> k \<in> set (completeKeys s') \<and>
         (\<forall>d \<in> set declared. declaredIn s' k d) \<and>
         (\<forall>d \<in> set discovered. discoveredIn s' k d)"
proof (cases acts)
  case Nil
  with run have "runTask n R k r ts (taskInputsAvailable r ts) False declared discovered s = Inr s'"
    by (simp add: runTask.simps split: if_splits)
  from task [OF s k this] show ?thesis .
next
  case (Cons a acts')
  show ?thesis
  proof (cases a)
    case (TaskNeedsInput d i)
    from run Cons TaskNeedsInput obtain s1 where r: "resolve n R d s = Inr s1"
      by (cases "resolve n R d s") (simp_all add: runTask.simps)
    from run Cons TaskNeedsInput r obtain rd where rd: "results s1 d = Some rd"
      by (cases "results s1 d") (simp_all add: runTask.simps)
    from run Cons TaskNeedsInput r rd
    have rest: "runTask n R k r (taskProvideValue r i (resultValue rd) ts) acts' True
                  (declared @ [d]) discovered
                  (s1\<lparr>deliveries := deliveries s1 @ [(k, d, i)]\<rparr>) = Inr s'"
      by (simp add: runTask.simps)
    from res [OF s r] have f1: "frame {} s s1" by simp
    have c1: "consistent (s1\<lparr>deliveries := deliveries s1 @ [(k, d, i)]\<rparr>)"
      using frame_consistent [OF f1] by simp
    have k1: "k \<in> set (scanningKeys (s1\<lparr>deliveries := deliveries s1 @ [(k, d, i)]\<rparr>))"
      using frame_scanning [OF f1 k] by simp
    from task [OF c1 k1 rest]
    have f2: "frame {k} (s1\<lparr>deliveries := deliveries s1 @ [(k, d, i)]\<rparr>) s'"
      and fin: "k \<in> set (completeKeys s')"
      and decl: "\<forall>d' \<in> set (declared @ [d]). declaredIn s' k d'"
      and disc: "\<forall>d \<in> set discovered. discoveredIn s' k d"
      by simp_all
    from decl have "declaredIn s' k d" by simp
    from frame_delivery [OF f2 this] have "frame {k} s1 s'" .
    with f1 have "frame {k} s s'" using frame_trans by fastforce
    with fin decl disc show ?thesis by simp
  next
    case (TaskDiscoveredDependency d)
    with Cons run
    have rest: "runTask n R k r ts acts' waiting declared (discovered @ [d])
                  (s\<lparr>discoveries := discoveries s @ [(k, d)]\<rparr>) = Inr s'"
      by (simp add: runTask.simps)
    have c1: "consistent (s\<lparr>discoveries := discoveries s @ [(k, d)]\<rparr>)"
      using s by simp
    have k1: "k \<in> set (scanningKeys (s\<lparr>discoveries := discoveries s @ [(k, d)]\<rparr>))"
      using k by simp
    from task [OF c1 k1 rest]
    have f2: "frame {k} (s\<lparr>discoveries := discoveries s @ [(k, d)]\<rparr>) s'"
      and fin: "k \<in> set (completeKeys s')"
      and decl: "\<forall>d \<in> set declared. declaredIn s' k d"
      and disc: "\<forall>d' \<in> set (discovered @ [d]). discoveredIn s' k d'"
      by simp_all
    from disc have "discoveredIn s' k d" by simp
    from frame_discovery [OF f2 this] have "frame {k} s s'" .
    with fin decl disc show ?thesis by simp
  next
    case (TaskIsComplete v)
    with Cons run
    have rest: "resolveAll n R discovered (completeTask k v declared discovered s) = Inr s'"
      by (simp add: runTask.simps)
    have nk: "k \<notin> set (completeKeys s)"
      using s k by (rule scanning_not_complete)
    have f1: "frame {k} s (completeTask k v declared discovered s)"
      using s nk by (rule frame_completeTask)
    from all [OF frame_consistent [OF f1] rest]
    have f2: "frame {} (completeTask k v declared discovered s) s'" .
    from f1 f2 have f: "frame {k} s s'" using frame_trans by fastforce
    have "k \<in> set (completeKeys (completeTask k v declared discovered s))"
      by (simp add: completeTask_def)
    then have fin: "k \<in> set (completeKeys s')"
      using f2 by (rule frame_complete [rotated])
    have "\<forall>d \<in> set declared. declaredIn (completeTask k v declared discovered s) k d"
      by (simp add: declaredIn_def completeTask_def)
    then have decl: "\<forall>d \<in> set declared. declaredIn s' k d"
      using f2 by (blast intro: frame_declaredIn)
    have "\<forall>d \<in> set discovered. discoveredIn (completeTask k v declared discovered s) k d"
      by (simp add: discoveredIn_def completeTask_def)
    then have disc: "\<forall>d \<in> set discovered. discoveredIn s' k d"
      using f2 by (blast intro: frame_discoveredIn)
    from f fin decl disc show ?thesis by simp
  next
    case (BuiltKey x)
    with Cons run
    have rest: "runTask n R k r ts acts' waiting declared discovered
                  (s\<lparr>builtKeys := builtKeys s @ [x]\<rparr>) = Inr s'"
      by (simp add: runTask.simps)
    have c1: "consistent (s\<lparr>builtKeys := builtKeys s @ [x]\<rparr>)"
      using s by simp
    have k1: "k \<in> set (scanningKeys (s\<lparr>builtKeys := builtKeys s @ [x]\<rparr>))"
      using k by simp
    from task [OF c1 k1 rest] show ?thesis by simp
  qed
qed

lemma resolve_step:
  fixes R :: "KeyType \<Rightarrow> ('v, 'ts) Rule option"
  assumes scan: "\<And>(R :: KeyType \<Rightarrow> ('v, 'ts) Rule option) built ds s dirty s'.
            consistent s \<Longrightarrow> scanDependencies n R built ds s = Inr (dirty, s') \<Longrightarrow>
              frame {} s s'"
      and task: "\<And>(R :: KeyType \<Rightarrow> ('v, 'ts) Rule option) k r ts acts waiting declared
                discovered s s'.
            consistent s \<Longrightarrow> k \<in> set (scanningKeys s) \<Longrightarrow>
            runTask n R k r ts acts waiting declared discovered s = Inr s' \<Longrightarrow>
              frame {k} s s' \<and> k \<in> set (completeKeys s') \<and>
              (\<forall>d \<in> set declared. declaredIn s' k d) \<and>
              (\<forall>d \<in> set discovered. discoveredIn s' k d)"
      and s: "consistent s"
      and run: "resolve (Suc n) R k s = Inr s'"
  shows "frame {} s s' \<and> k \<in> set (completeKeys s')"
proof (cases "k \<in> set (completeKeys s)")
  case True
  with run have "s' = s" by (simp add: resolve.simps)
  with True s show ?thesis by (simp add: frame_refl)
next
  case nc: False
  from run nc have ns: "k \<notin> set (scanningKeys s)"
    by (simp add: resolve.simps split: if_splits)
  from run nc ns obtain r where r: "R k = Some r"
    by (cases "R k") (simp_all add: resolve.simps)
  define s1 where "s1 = s\<lparr>scanningKeys := k # scanningKeys s\<rparr>"
  have c1: "consistent s1"
    unfolding s1_def using s nc by (rule consistent_push)
  have k1: "k \<in> set (scanningKeys s1)"
    by (simp add: s1_def)
  have push: "frame {} s s'" if "frame {k} s1 s'"
    using that ns unfolding s1_def by (rule frame_push)
  have started: "frame {} s s' \<and> k \<in> set (completeKeys s')"
    if st: "consistent s2" "k \<in> set (scanningKeys s2)" "frame {} s1 s2"
      and rest: "runTask n R k r ts acts True [] [] (s2\<lparr>builtKeys := b\<rparr>) = Inr s'"
    for s2 ts acts b
  proof -
    have "consistent (s2\<lparr>builtKeys := b\<rparr>)" "k \<in> set (scanningKeys (s2\<lparr>builtKeys := b\<rparr>))"
      using st by simp_all
    from task [OF this rest] have f: "frame {k} s2 s'" and fin: "k \<in> set (completeKeys s')"
      by simp_all
    from st(3) f have "frame {k} s1 s'" using frame_trans by fastforce
    with fin show ?thesis by (simp add: push)
  qed
  show ?thesis
  proof (cases "results s k")
    case None
    with run nc ns r
    have "runTask n R k r (snd (createTask r)) (taskStart r (snd (createTask r))) True [] []
            (s1\<lparr>builtKeys := builtKeys s @ fst (createTask r)\<rparr>) = Inr s'"
      by (simp add: resolve.simps s1_def)
    with c1 k1 show ?thesis by (intro started [of s1]) (simp_all add: frame_refl)
  next
    case (Some prior)
    show ?thesis
    proof (cases "ruleIsValid r (resultValue prior)")
      case False
      with run nc ns r Some
      have "runTask n R k r
              (taskProvidePriorValue r (resultValue prior) (snd (createTask r)))
              (taskStart r (taskProvidePriorValue r (resultValue prior) (snd (createTask r))))
              True [] [] (s1\<lparr>builtKeys := builtKeys s1 @ fst (createTask r)\<rparr>) = Inr s'"
        by (simp add: resolve.simps s1_def)
      with c1 k1 show ?thesis by (intro started [of s1]) (simp_all add: frame_refl)
    next
      case True
      from run nc ns r Some True obtain dirty s2
        where sc: "scanDependencies n R (builtAt prior)
                     (declaredDeps prior @ discoveredDeps prior) s1 = Inr (dirty, s2)"
        by (cases "scanDependencies n R (builtAt prior)
                     (declaredDeps prior @ discoveredDeps prior) s1")
           (auto simp: resolve.simps s1_def)
      from scan [OF c1 sc] have f12: "frame {} s1 s2" .
      have c2: "consistent s2" using f12 by (rule frame_consistent)
      have k2: "k \<in> set (scanningKeys s2)" using f12 k1 by (rule frame_scanning) simp
      show ?thesis
      proof (cases dirty)
        case False
        with run nc ns r Some True sc have s': "s' = markChecked k prior s2"
          by (simp add: resolve.simps s1_def)
        have "k \<notin> set (completeKeys s2)" using c2 k2 by (rule scanning_not_complete)
        with c2 have "frame {k} s2 (markChecked k prior s2)" by (rule frame_markChecked)
        with f12 have "frame {k} s1 s'" unfolding s' using frame_trans by fastforce
        then have "frame {} s s'" by (rule push)
        moreover have "k \<in> set (completeKeys s')" by (simp add: s' markChecked_def)
        ultimately show ?thesis by simp
      next
        case dirty: True
        with run nc ns r Some True sc
        have "runTask n R k r
                (taskProvidePriorValue r (resultValue prior) (snd (createTask r)))
                (taskStart r (taskProvidePriorValue r (resultValue prior) (snd (createTask r))))
                True [] [] (s2\<lparr>builtKeys := builtKeys s2 @ fst (createTask r)\<rparr>) = Inr s'"
          by (simp add: resolve.simps s1_def)
        with c2 k2 f12 show ?thesis by (intro started [of s2]) simp_all
      qed
    qed
  qed
qed

text \<open>The four functions, by induction on the fuel.\<close>

lemma engine_frame:
  "(\<forall>(R :: KeyType \<Rightarrow> ('v, 'ts) Rule option) k s s'.
      consistent s \<longrightarrow> resolve n R k s = Inr s' \<longrightarrow>
        frame {} s s' \<and> k \<in> set (completeKeys s')) \<and>
   (\<forall>(R :: KeyType \<Rightarrow> ('v, 'ts) Rule option) built ds s dirty s'.
      consistent s \<longrightarrow> scanDependencies n R built ds s = Inr (dirty, s') \<longrightarrow> frame {} s s') \<and>
   (\<forall>(R :: KeyType \<Rightarrow> ('v, 'ts) Rule option) k r ts acts waiting declared discovered s s'.
      consistent s \<longrightarrow> k \<in> set (scanningKeys s) \<longrightarrow>
      runTask n R k r ts acts waiting declared discovered s = Inr s' \<longrightarrow>
        frame {k} s s' \<and> k \<in> set (completeKeys s') \<and>
        (\<forall>d \<in> set declared. declaredIn s' k d) \<and>
        (\<forall>d \<in> set discovered. discoveredIn s' k d)) \<and>
   (\<forall>(R :: KeyType \<Rightarrow> ('v, 'ts) Rule option) ds s s'.
      consistent s \<longrightarrow> resolveAll n R ds s = Inr s' \<longrightarrow> frame {} s s')"
proof (induction n)
  case 0
  show ?case
    by (simp add: resolve.simps scanDependencies.simps runTask.simps resolveAll.simps)
next
  case (Suc n)
  note res = Suc [THEN conjunct1, rule_format]
  note scan = Suc [THEN conjunct2, THEN conjunct1, rule_format]
  note task = Suc [THEN conjunct2, THEN conjunct2, THEN conjunct1, rule_format]
  note all = Suc [THEN conjunct2, THEN conjunct2, THEN conjunct2, rule_format]
  have 1: "\<forall>(R :: KeyType \<Rightarrow> ('v, 'ts) Rule option) k s s'.
      consistent s \<longrightarrow> resolve (Suc n) R k s = Inr s' \<longrightarrow>
        frame {} s s' \<and> k \<in> set (completeKeys s')"
    by (intro allI impI) (rule resolve_step [OF scan task])
  have 2: "\<forall>(R :: KeyType \<Rightarrow> ('v, 'ts) Rule option) built ds s dirty s'.
      consistent s \<longrightarrow> scanDependencies (Suc n) R built ds s = Inr (dirty, s') \<longrightarrow>
        frame {} s s'"
    by (intro allI impI) (rule scanDependencies_step [OF res scan])
  have 3: "\<forall>(R :: KeyType \<Rightarrow> ('v, 'ts) Rule option) k r ts acts waiting declared
        discovered s s'.
      consistent s \<longrightarrow> k \<in> set (scanningKeys s) \<longrightarrow>
      runTask (Suc n) R k r ts acts waiting declared discovered s = Inr s' \<longrightarrow>
        frame {k} s s' \<and> k \<in> set (completeKeys s') \<and>
        (\<forall>d \<in> set declared. declaredIn s' k d) \<and>
        (\<forall>d \<in> set discovered. discoveredIn s' k d)"
    by (intro allI impI) (rule runTask_step [OF res task all])
  have 4: "\<forall>(R :: KeyType \<Rightarrow> ('v, 'ts) Rule option) ds s s'.
      consistent s \<longrightarrow> resolveAll (Suc n) R ds s = Inr s' \<longrightarrow> frame {} s s'"
    by (intro allI impI) (rule resolveAll_step [OF res all])
  from 1 2 3 4 show ?case by (intro conjI)
qed

subsection \<open>Discovered dependencies\<close>

lemma engineBuild_frame:
  fixes R :: "KeyType \<Rightarrow> ('v, 'ts) Rule option"
  assumes "engineBuild fuel R key s = Inr (v, s')"
  shows "frame {}
           (s\<lparr>currentIteration := currentIteration s + 1, completeKeys := [],
              scanningKeys := []\<rparr>) s'"
proof -
  let ?s0 = "s\<lparr>currentIteration := currentIteration s + 1, completeKeys := [],
                scanningKeys := []\<rparr>"
  from assms have "resolve fuel R key ?s0 = Inr s'"
    by (auto simp: engineBuild_def split: sum.splits option.splits)
  moreover have "consistent ?s0"
    by (simp add: consistent_def)
  ultimately show ?thesis
    using engine_frame [of fuel, THEN conjunct1, rule_format, of ?s0 R key s'] by simp
qed

lemma engineBuild_records:
  fixes R :: "KeyType \<Rightarrow> ('v, 'ts) Rule option"
  assumes "engineBuild fuel R key s = Inr (v, s')"
  shows "\<exists>delivered discovered.
           deliveries s' = deliveries s @ delivered \<and>
           discoveries s' = discoveries s @ discovered \<and>
           (\<forall>(k, d) \<in> set discovered.
              \<exists>res. results s' k = Some res \<and> d \<in> set (discoveredDeps res) \<and>
                (\<forall>i. (k, d, i) \<in> set delivered \<longrightarrow> d \<in> set (declaredDeps res)))"
proof -
  from engineBuild_frame [OF assms] obtain delivered discovered
    where del: "deliveries s' = deliveries s @ delivered"
        "\<forall>(k, d, i) \<in> set delivered. declaredIn s' k d"
      and dis: "discoveries s' = discoveries s @ discovered"
        "\<forall>(k, d) \<in> set discovered. discoveredIn s' k d"
    unfolding frame_def by auto
  have "\<exists>res. results s' k = Some res \<and> d \<in> set (discoveredDeps res) \<and>
          (\<forall>i. (k, d, i) \<in> set delivered \<longrightarrow> d \<in> set (declaredDeps res))"
    if "(k, d) \<in> set discovered" for k d
  proof -
    from that dis(2) obtain res where res: "results s' k = Some res" "d \<in> set (discoveredDeps res)"
      unfolding discoveredIn_def by auto
    have "d \<in> set (declaredDeps res)" if "(k, d, i) \<in> set delivered" for i
      using that del(2) res(1) unfolding declaredIn_def by auto
    with res show ?thesis by blast
  qed
  with del(1) dis(1) show ?thesis by blast
qed

lemmas engine_eval =
  engineBuild_def resolve.simps scanDependencies.simps runTask.simps resolveAll.simps
  discoveredDependenciesRules_def simpleAction_def taskWithDiscoveredDependency_def
  completeTask_def markChecked_def newEngine_def clearBuiltKeys_def eval_nat_numeral

lemma first_build:
  "engineBuild 12 (discoveredDependenciesRules valueA valueB) ''output'' newEngine =
     Inr (valueA * valueB * 5, afterFirstBuild valueA valueB)"
  by (simp add: engine_eval afterFirstBuild_def)

lemma null_build:
  "\<exists>s2. engineBuild 12 (discoveredDependenciesRules valueA valueB) ''output''
           (clearBuiltKeys (afterFirstBuild valueA valueB)) =
          Inr (valueA * valueB * 5, s2) \<and> builtKeys s2 = []"
  by (simp add: engine_eval afterFirstBuild_def)

lemma second_build:
  assumes "valueB' \<noteq> valueB"
  shows "\<exists>s2. engineBuild 12 (discoveredDependenciesRules valueA valueB') ''output''
                 (clearBuiltKeys (afterFirstBuild valueA valueB)) =
               Inr (valueA * valueB' * 5, s2) \<and>
               builtKeys s2 = [''value-B'', ''output'']"
  using assms by (simp add: engine_eval afterFirstBuild_def)

text \<open>
  The test \<^verbatim>\<open>unchangedOutputs\<close>: the first build runs \<open>value\<close> and \<open>result\<close>; the
  second runs \<open>value\<close> again, and not \<open>result\<close>, whose input kept its value.
\<close>

lemma unchanged_outputs:
  "\<exists>s1 s2.
     engineBuild 12 unchangedOutputsRules ''result'' newEngine = Inr (6, s1) \<and>
     builtKeys s1 = [''value'', ''result''] \<and>
     engineBuild 12 unchangedOutputsRules ''result'' (clearBuiltKeys s1) = Inr (6, s2) \<and>
     builtKeys s2 = [''value'']"
  by (simp add: engine_eval unchangedOutputsRules_def)


subsection \<open>More fuel does not change a result\<close>

lemma resolveAll_more:
  fixes R :: "KeyType \<Rightarrow> ('v, 'ts) Rule option"
  assumes res: "\<And>(R :: KeyType \<Rightarrow> ('v, 'ts) Rule option) k s s'.
            resolve n R k s = Inr s' \<Longrightarrow> resolve (Suc n) R k s = Inr s'"
      and all: "\<And>(R :: KeyType \<Rightarrow> ('v, 'ts) Rule option) ds s s'.
            resolveAll n R ds s = Inr s' \<Longrightarrow> resolveAll (Suc n) R ds s = Inr s'"
      and run: "resolveAll (Suc n) R ds s = Inr s'"
  shows "resolveAll (Suc (Suc n)) R ds s = Inr s'"
proof (cases ds)
  case Nil
  with run show ?thesis by (simp add: resolveAll.simps)
next
  case (Cons d ds')
  from run Cons obtain s1 where r: "resolve n R d s = Inr s1"
    by (cases "resolve n R d s") (simp_all add: resolveAll.simps)
  from run Cons r have rest: "resolveAll n R ds' s1 = Inr s'"
    by (simp add: resolveAll.simps)
  show ?thesis
    by (subst resolveAll.simps) (simp add: Cons res [OF r] all [OF rest])
qed

lemma scanDependencies_more:
  fixes R :: "KeyType \<Rightarrow> ('v, 'ts) Rule option"
  assumes res: "\<And>(R :: KeyType \<Rightarrow> ('v, 'ts) Rule option) k s s'.
            resolve n R k s = Inr s' \<Longrightarrow> resolve (Suc n) R k s = Inr s'"
      and scan: "\<And>(R :: KeyType \<Rightarrow> ('v, 'ts) Rule option) built ds s p.
            scanDependencies n R built ds s = Inr p \<Longrightarrow>
              scanDependencies (Suc n) R built ds s = Inr p"
      and run: "scanDependencies (Suc n) R built ds s = Inr p"
  shows "scanDependencies (Suc (Suc n)) R built ds s = Inr p"
proof (cases ds)
  case Nil
  with run show ?thesis by (simp add: scanDependencies.simps)
next
  case (Cons d ds')
  from run Cons obtain s1 where r: "resolve n R d s = Inr s1"
    by (cases "resolve n R d s") (simp_all add: scanDependencies.simps)
  from run Cons r obtain rd where rd: "results s1 d = Some rd"
    by (cases "results s1 d") (simp_all add: scanDependencies.simps)
  show ?thesis
  proof (cases "builtAt rd > built")
    case True
    with run Cons r rd have "p = (True, s1)" by (simp add: scanDependencies.simps)
    with True Cons rd show ?thesis
      by (subst scanDependencies.simps) (simp add: res [OF r])
  next
    case False
    with run Cons r rd have rest: "scanDependencies n R built ds' s1 = Inr p"
      by (simp add: scanDependencies.simps)
    show ?thesis
      by (subst scanDependencies.simps) (simp add: Cons res [OF r] rd False scan [OF rest])
  qed
qed

lemma runTask_more:
  fixes R :: "KeyType \<Rightarrow> ('v, 'ts) Rule option"
  assumes res: "\<And>(R :: KeyType \<Rightarrow> ('v, 'ts) Rule option) k s s'.
            resolve n R k s = Inr s' \<Longrightarrow> resolve (Suc n) R k s = Inr s'"
      and task: "\<And>(R :: KeyType \<Rightarrow> ('v, 'ts) Rule option) k r ts acts waiting declared
                discovered s s'.
            runTask n R k r ts acts waiting declared discovered s = Inr s' \<Longrightarrow>
              runTask (Suc n) R k r ts acts waiting declared discovered s = Inr s'"
      and all: "\<And>(R :: KeyType \<Rightarrow> ('v, 'ts) Rule option) ds s s'.
            resolveAll n R ds s = Inr s' \<Longrightarrow> resolveAll (Suc n) R ds s = Inr s'"
      and run: "runTask (Suc n) R k r ts acts waiting declared discovered s = Inr s'"
  shows "runTask (Suc (Suc n)) R k r ts acts waiting declared discovered s = Inr s'"
proof (cases acts)
  case Nil
  with run have w: waiting
    and rest: "runTask n R k r ts (taskInputsAvailable r ts) False declared discovered s = Inr s'"
    by (simp_all add: runTask.simps split: if_splits)
  show ?thesis
    by (subst runTask.simps) (simp add: Nil w task [OF rest])
next
  case (Cons a acts')
  show ?thesis
  proof (cases a)
    case (TaskNeedsInput d i)
    from run Cons TaskNeedsInput obtain s1 where r: "resolve n R d s = Inr s1"
      by (cases "resolve n R d s") (simp_all add: runTask.simps)
    from run Cons TaskNeedsInput r obtain rd where rd: "results s1 d = Some rd"
      by (cases "results s1 d") (simp_all add: runTask.simps)
    from run Cons TaskNeedsInput r rd
    have rest: "runTask n R k r (taskProvideValue r i (resultValue rd) ts) acts' True
                  (declared @ [d]) discovered
                  (s1\<lparr>deliveries := deliveries s1 @ [(k, d, i)]\<rparr>) = Inr s'"
      by (simp add: runTask.simps)
    show ?thesis
      by (subst runTask.simps) (simp add: Cons TaskNeedsInput res [OF r] rd task [OF rest])
  next
    case (TaskDiscoveredDependency d)
    with Cons run
    have rest: "runTask n R k r ts acts' waiting declared (discovered @ [d])
                  (s\<lparr>discoveries := discoveries s @ [(k, d)]\<rparr>) = Inr s'"
      by (simp add: runTask.simps)
    show ?thesis
      by (subst runTask.simps) (simp add: Cons TaskDiscoveredDependency task [OF rest])
  next
    case (TaskIsComplete v)
    with Cons run
    have rest: "resolveAll n R discovered (completeTask k v declared discovered s) = Inr s'"
      by (simp add: runTask.simps)
    show ?thesis
      by (subst runTask.simps) (simp add: Cons TaskIsComplete all [OF rest])
  next
    case (BuiltKey x)
    with Cons run
    have rest: "runTask n R k r ts acts' waiting declared discovered
                  (s\<lparr>builtKeys := builtKeys s @ [x]\<rparr>) = Inr s'"
      by (simp add: runTask.simps)
    show ?thesis
      by (subst runTask.simps) (simp add: Cons BuiltKey task [OF rest])
  qed
qed

lemma resolve_more:
  fixes R :: "KeyType \<Rightarrow> ('v, 'ts) Rule option"
  assumes scan: "\<And>(R :: KeyType \<Rightarrow> ('v, 'ts) Rule option) built ds s p.
            scanDependencies n R built ds s = Inr p \<Longrightarrow>
              scanDependencies (Suc n) R built ds s = Inr p"
      and task: "\<And>(R :: KeyType \<Rightarrow> ('v, 'ts) Rule option) k r ts acts waiting declared
                discovered s s'.
            runTask n R k r ts acts waiting declared discovered s = Inr s' \<Longrightarrow>
              runTask (Suc n) R k r ts acts waiting declared discovered s = Inr s'"
      and run: "resolve (Suc n) R k s = Inr s'"
  shows "resolve (Suc (Suc n)) R k s = Inr s'"
proof (cases "k \<in> set (completeKeys s)")
  case True
  with run show ?thesis by (simp add: resolve.simps)
next
  case nc: False
  from run nc have ns: "k \<notin> set (scanningKeys s)"
    by (simp add: resolve.simps split: if_splits)
  from run nc ns obtain r where r: "R k = Some r"
    by (cases "R k") (simp_all add: resolve.simps)
  show ?thesis
  proof (cases "results s k")
    case None
    with run nc ns r
    have rest: "runTask n R k r (snd (createTask r)) (taskStart r (snd (createTask r))) True [] []
            (s\<lparr>scanningKeys := k # scanningKeys s,
               builtKeys := builtKeys s @ fst (createTask r)\<rparr>) = Inr s'"
      by (simp add: resolve.simps)
    show ?thesis
      by (subst resolve.simps) (simp add: nc ns r None task [OF rest])
  next
    case (Some prior)
    show ?thesis
    proof (cases "ruleIsValid r (resultValue prior)")
      case False
      with run nc ns r Some
      have rest: "runTask n R k r
              (taskProvidePriorValue r (resultValue prior) (snd (createTask r)))
              (taskStart r (taskProvidePriorValue r (resultValue prior) (snd (createTask r))))
              True [] []
              (s\<lparr>scanningKeys := k # scanningKeys s,
                 builtKeys := builtKeys s @ fst (createTask r)\<rparr>) = Inr s'"
        by (simp add: resolve.simps)
      show ?thesis
        by (subst resolve.simps) (simp add: nc ns r Some False task [OF rest])
    next
      case True
      from run nc ns r Some True obtain dirty s2
        where sc: "scanDependencies n R (builtAt prior)
                     (declaredDeps prior @ discoveredDeps prior)
                     (s\<lparr>scanningKeys := k # scanningKeys s\<rparr>) = Inr (dirty, s2)"
        by (cases "scanDependencies n R (builtAt prior)
                     (declaredDeps prior @ discoveredDeps prior)
                     (s\<lparr>scanningKeys := k # scanningKeys s\<rparr>)")
           (auto simp: resolve.simps)
      show ?thesis
      proof (cases dirty)
        case False
        with run nc ns r Some True sc have s': "s' = markChecked k prior s2"
          by (simp add: resolve.simps)
        show ?thesis
          by (subst resolve.simps) (simp add: nc ns r Some True scan [OF sc] False s')
      next
        case dirty: True
        with run nc ns r Some True sc
        have rest: "runTask n R k r
                (taskProvidePriorValue r (resultValue prior) (snd (createTask r)))
                (taskStart r (taskProvidePriorValue r (resultValue prior) (snd (createTask r))))
                True [] [] (s2\<lparr>builtKeys := builtKeys s2 @ fst (createTask r)\<rparr>) = Inr s'"
          by (simp add: resolve.simps)
        show ?thesis
          by (subst resolve.simps) (simp add: nc ns r Some True scan [OF sc] dirty task [OF rest])
      qed
    qed
  qed
qed

lemma engine_more_fuel:
  "(\<forall>(R :: KeyType \<Rightarrow> ('v, 'ts) Rule option) k s s'.
      resolve n R k s = Inr s' \<longrightarrow> resolve (Suc n) R k s = Inr s') \<and>
   (\<forall>(R :: KeyType \<Rightarrow> ('v, 'ts) Rule option) built ds s p.
      scanDependencies n R built ds s = Inr p \<longrightarrow>
        scanDependencies (Suc n) R built ds s = Inr p) \<and>
   (\<forall>(R :: KeyType \<Rightarrow> ('v, 'ts) Rule option) k r ts acts waiting declared discovered s s'.
      runTask n R k r ts acts waiting declared discovered s = Inr s' \<longrightarrow>
        runTask (Suc n) R k r ts acts waiting declared discovered s = Inr s') \<and>
   (\<forall>(R :: KeyType \<Rightarrow> ('v, 'ts) Rule option) ds s s'.
      resolveAll n R ds s = Inr s' \<longrightarrow> resolveAll (Suc n) R ds s = Inr s')"
proof (induction n)
  case 0
  show ?case
    by (simp add: resolve.simps scanDependencies.simps runTask.simps resolveAll.simps)
next
  case (Suc n)
  note res = Suc [THEN conjunct1, rule_format]
  note scan = Suc [THEN conjunct2, THEN conjunct1, rule_format]
  note task = Suc [THEN conjunct2, THEN conjunct2, THEN conjunct1, rule_format]
  note all = Suc [THEN conjunct2, THEN conjunct2, THEN conjunct2, rule_format]
  have 1: "\<forall>(R :: KeyType \<Rightarrow> ('v, 'ts) Rule option) k s s'.
      resolve (Suc n) R k s = Inr s' \<longrightarrow> resolve (Suc (Suc n)) R k s = Inr s'"
    by (intro allI impI) (rule resolve_more [OF scan task])
  have 2: "\<forall>(R :: KeyType \<Rightarrow> ('v, 'ts) Rule option) built ds s p.
      scanDependencies (Suc n) R built ds s = Inr p \<longrightarrow>
        scanDependencies (Suc (Suc n)) R built ds s = Inr p"
    by (intro allI impI) (rule scanDependencies_more [OF res scan])
  have 3: "\<forall>(R :: KeyType \<Rightarrow> ('v, 'ts) Rule option) k r ts acts waiting declared
        discovered s s'.
      runTask (Suc n) R k r ts acts waiting declared discovered s = Inr s' \<longrightarrow>
        runTask (Suc (Suc n)) R k r ts acts waiting declared discovered s = Inr s'"
    by (intro allI impI) (rule runTask_more [OF res task all])
  have 4: "\<forall>(R :: KeyType \<Rightarrow> ('v, 'ts) Rule option) ds s s'.
      resolveAll (Suc n) R ds s = Inr s' \<longrightarrow> resolveAll (Suc (Suc n)) R ds s = Inr s'"
    by (intro allI impI) (rule resolveAll_more [OF res all])
  from 1 2 3 4 show ?case by (intro conjI)
qed

lemma resolve_enough_fuel:
  fixes R :: "KeyType \<Rightarrow> ('v, 'ts) Rule option"
  assumes "resolve n R k s = Inr s'" and "n \<le> m"
  shows "resolve m R k s = Inr s'"
  using assms(2,1)
proof (induction rule: dec_induct)
  case base
  then show ?case .
next
  case (step m)
  then show ?case
    using engine_more_fuel [of m, THEN conjunct1, rule_format, of R k s s'] by simp
qed

lemma engineBuild_enough_fuel:
  fixes R :: "KeyType \<Rightarrow> ('v, 'ts) Rule option"
  assumes "engineBuild n R k s = Inr p" and "n \<le> m"
  shows "engineBuild m R k s = Inr p"
proof -
  let ?s0 = "s\<lparr>currentIteration := currentIteration s + 1, completeKeys := [],
                scanningKeys := []\<rparr>"
  from assms(1) obtain s' where r: "resolve n R k ?s0 = Inr s'"
    by (cases "resolve n R k ?s0") (simp_all add: engineBuild_def)
  from resolve_enough_fuel [OF r assms(2)] have "resolve m R k ?s0 = Inr s'" .
  with assms(1) r show ?thesis
    by (simp add: engineBuild_def)
qed


text \<open>
  C1. For every rule whose task reports a key via \<^verbatim>\<open>taskDiscoveredDependency\<close>
  during a build, the key is recorded in the discovered dependencies of the rule's
  stored result, and the value of that key is not delivered to the task: every
  \<^verbatim>\<open>provideValue\<close> of the build is for a key in the declared dependencies of the
  task's result, that is, for a key the task asked for with \<^verbatim>\<open>taskNeedsInput\<close>.
  Consequently, for the task of the test, which declares \<open>value-A\<close> up front, reports
  \<open>value-B\<close> as discovered in \<^verbatim>\<open>inputsAvailable\<close> and returns \<open>A * B * 5\<close>: with
  enough fuel the first build returns that value and builds \<open>output\<close>, \<open>value-A\<close>,
  \<open>value-B\<close>, delivering only the value of \<open>value-A\<close>; and a second build after only
  the value of B has changed returns the new product and runs exactly the rule of
  \<open>value-B\<close> and then the rule \<open>output\<close>.
\<close>

theorem discovered_dependencies:
  fixes R :: "KeyType \<Rightarrow> ('v, 'ts) Rule option"
  shows
  "(engineBuild fuel R key s = Inr (v, s') \<longrightarrow>
      (\<exists>delivered discovered.
         deliveries s' = deliveries s @ delivered \<and>
         discoveries s' = discoveries s @ discovered \<and>
         (\<forall>(k, d) \<in> set discovered.
            \<exists>res. results s' k = Some res \<and> d \<in> set (discoveredDeps res) \<and>
              (\<forall>i. (k, d, i) \<in> set delivered \<longrightarrow> d \<in> set (declaredDeps res))))) \<and>
   (12 \<le> n \<longrightarrow>
      (\<exists>s1. engineBuild n (discoveredDependenciesRules valueA valueB) ''output'' newEngine =
              Inr (valueA * valueB * 5, s1) \<and>
            builtKeys s1 = [''output'', ''value-A'', ''value-B''] \<and>
            deliveries s1 = [(''output'', ''value-A'', 0)] \<and>
            discoveries s1 = [(''output'', ''value-B'')] \<and>
            (\<exists>res. results s1 ''output'' = Some res \<and>
               declaredDeps res = [''value-A''] \<and> discoveredDeps res = [''value-B'']) \<and>
            (valueB' \<noteq> valueB \<longrightarrow>
               (\<exists>s2. engineBuild n (discoveredDependenciesRules valueA valueB') ''output''
                        (clearBuiltKeys s1) =
                      Inr (valueA * valueB' * 5, s2) \<and>
                     builtKeys s2 = [''value-B'', ''output'']))))"
proof (intro conjI impI)
  assume "engineBuild fuel R key s = Inr (v, s')"
  then show "\<exists>delivered discovered.
         deliveries s' = deliveries s @ delivered \<and>
         discoveries s' = discoveries s @ discovered \<and>
         (\<forall>(k, d) \<in> set discovered.
            \<exists>res. results s' k = Some res \<and> d \<in> set (discoveredDeps res) \<and>
              (\<forall>i. (k, d, i) \<in> set delivered \<longrightarrow> d \<in> set (declaredDeps res)))"
    by (rule engineBuild_records)
next
  assume n: "12 \<le> n"
  let ?s1 = "afterFirstBuild valueA valueB"
  have b1: "engineBuild n (discoveredDependenciesRules valueA valueB) ''output'' newEngine =
              Inr (valueA * valueB * 5, ?s1)"
    using first_build n by (rule engineBuild_enough_fuel)
  have b2: "\<exists>s2. engineBuild n (discoveredDependenciesRules valueA valueB') ''output''
                   (clearBuiltKeys ?s1) = Inr (valueA * valueB' * 5, s2) \<and>
                 builtKeys s2 = [''value-B'', ''output'']"
    if "valueB' \<noteq> valueB"
  proof -
    from second_build [OF that, of valueA] obtain s2
      where "engineBuild 12 (discoveredDependenciesRules valueA valueB') ''output''
               (clearBuiltKeys ?s1) = Inr (valueA * valueB' * 5, s2)"
        and keys: "builtKeys s2 = [''value-B'', ''output'']"
      by blast
    from this(1) n
    have "engineBuild n (discoveredDependenciesRules valueA valueB') ''output''
            (clearBuiltKeys ?s1) = Inr (valueA * valueB' * 5, s2)"
      by (rule engineBuild_enough_fuel)
    with keys show ?thesis by blast
  qed
  have "builtKeys ?s1 = [''output'', ''value-A'', ''value-B'']"
    "deliveries ?s1 = [(''output'', ''value-A'', 0)]"
    "discoveries ?s1 = [(''output'', ''value-B'')]"
    "\<exists>res. results ?s1 ''output'' = Some res \<and>
       declaredDeps res = [''value-A''] \<and> discoveredDeps res = [''value-B'']"
    by (simp_all add: afterFirstBuild_def)
  with b1 b2
  show "\<exists>s1. engineBuild n (discoveredDependenciesRules valueA valueB) ''output'' newEngine =
              Inr (valueA * valueB * 5, s1) \<and>
            builtKeys s1 = [''output'', ''value-A'', ''value-B''] \<and>
            deliveries s1 = [(''output'', ''value-A'', 0)] \<and>
            discoveries s1 = [(''output'', ''value-B'')] \<and>
            (\<exists>res. results s1 ''output'' = Some res \<and>
               declaredDeps res = [''value-A''] \<and> discoveredDeps res = [''value-B'']) \<and>
            (valueB' \<noteq> valueB \<longrightarrow>
               (\<exists>s2. engineBuild n (discoveredDependenciesRules valueA valueB') ''output''
                        (clearBuiltKeys s1) =
                      Inr (valueA * valueB' * 5, s2) \<and>
                     builtKeys s2 = [''value-B'', ''output'']))"
    by blast
qed

theorem discovered_dependencies_witness:
  "engineBuild 12 (discoveredDependenciesRules 2 3) ''output'' newEngine =
     Inr (30, afterFirstBuild 2 3) \<and>
   (\<exists>delivered discovered.
      deliveries (afterFirstBuild 2 3) = deliveries (newEngine :: int Engine) @ delivered \<and>
      discoveries (afterFirstBuild 2 3) = discoveries (newEngine :: int Engine) @ discovered \<and>
      (\<forall>(k, d) \<in> set discovered.
         \<exists>res. results (afterFirstBuild 2 3) k = Some res \<and> d \<in> set (discoveredDeps res) \<and>
           (\<forall>i. (k, d, i) \<in> set delivered \<longrightarrow> d \<in> set (declaredDeps res)))) \<and>
   (\<exists>s1. engineBuild 12 (discoveredDependenciesRules 2 3) ''output'' newEngine = Inr (30, s1) \<and>
      builtKeys s1 = [''output'', ''value-A'', ''value-B''] \<and>
      (\<exists>s2. engineBuild 12 (discoveredDependenciesRules 2 7) ''output'' (clearBuiltKeys s1) =
              Inr (70, s2) \<and>
            builtKeys s2 = [''value-B'', ''output'']))"
proof -
  have b: "engineBuild 12 (discoveredDependenciesRules 2 3) ''output'' newEngine =
             Inr (30, afterFirstBuild 2 3)"
    using first_build [of 2 3] by simp
  note inst = discovered_dependencies
    [of 12 "discoveredDependenciesRules 2 3" "''output''" newEngine 30 "afterFirstBuild 2 3"
        12 2 3 7]
  note general = inst [THEN conjunct1, THEN mp, OF b]
  from inst [THEN conjunct2]
  have "\<exists>s1. engineBuild 12 (discoveredDependenciesRules 2 3) ''output'' newEngine =
               Inr (30, s1) \<and>
             builtKeys s1 = [''output'', ''value-A'', ''value-B''] \<and>
             (\<exists>s2. engineBuild 12 (discoveredDependenciesRules 2 7) ''output''
                      (clearBuiltKeys s1) = Inr (70, s2) \<and>
                    builtKeys s2 = [''value-B'', ''output''])"
    by simp blast
  with b general show ?thesis by (intro conjI)
qed


end
